theory Spec2Isabelle
  imports Main "HOL-Library.Word" "HOL-Library.Char_ord" "HOL-Library.List_Lexorder"
begin

unbundle bit_operations_syntax

section \<open>The hash table of hashtable.c\<close>

text \<open>
  A shallow embedding of \<^verbatim>\<open>src/hashtable.c\<close>: an open-addressing hash table with
  linear probing, keyed by NUL-terminated strings, holding \<^verbatim>\<open>void*\<close> values.

  \<^item> \<^verbatim>\<open>size_t\<close> and \<^verbatim>\<open>u_int64_t\<close> are 64-bit words; arithmetic wraps.
  \<^item> A \<^verbatim>\<open>void*\<close> is its address, a 64-bit word; \<open>NULL\<close> is address 0.
  \<^item> A \<^verbatim>\<open>const char*\<close> key is \<open>None\<close> for the null pointer and \<open>Some s\<close> for a
    pointer to a string, where \<open>s\<close> lists the bytes before the terminator. Two strings
    compare equal with \<^verbatim>\<open>strcmp\<close> exactly when these lists are equal.
  \<^item> The array \<^verbatim>\<open>entries\<close> is a function from the index to the entry; \<^verbatim>\<open>calloc\<close>
    gives the array whose every entry is zero. The loops read the array below the
    capacity only, provided the capacity is not zero (lemmas \<open>home_less\<close>,
    \<open>next_index_less\<close> and \<open>probe_less\<close>), and no table with capacity zero is ever made
    (lemmas \<open>reachable_inv\<close> and \<open>I1_nonzero\<close>).
  \<^item> A memory request may fail: the record \<open>env\<close> says, for one call, whether
    \<^verbatim>\<open>malloc\<close>, \<^verbatim>\<open>calloc\<close> and \<^verbatim>\<open>strdup\<close> succeed, and whether the file is
    compiled with \<^verbatim>\<open>NDEBUG\<close> (which turns \<^verbatim>\<open>assert\<close> into nothing).
  \<^item> The probing loops may run forever on a full array: they are partial functions
    into \<open>option\<close>, where \<open>None\<close> means that the loop does not return.
  \<^item> \<^verbatim>\<open>hashtable_destroy\<close> only releases memory and is not part of the model.
\<close>

subsection \<open>Data\<close>

type_synonym size_t = "64 word"
type_synonym u_int64_t = "64 word"
type_synonym ptr = "64 word"

definition NULL :: ptr where
  "NULL = 0"

record hashtable_entry =
  e_key :: "string option"
  e_value :: ptr

record hashtable =
  entries :: "size_t \<Rightarrow> hashtable_entry"
  capacity :: size_t
  length_t :: size_t

record hashtablei =
  it_key :: "string option"
  it_value :: ptr
  it_table :: hashtable
  it_index :: size_t

record env =
  ndebug :: bool
  malloc_ok :: bool
  calloc_ok :: bool
  strdup_ok :: bool

datatype 'a outcome = Abort | Return 'a

definition INITIAL_CAPACITY :: size_t where
  "INITIAL_CAPACITY = 1"

definition zero_entry :: hashtable_entry where
  "zero_entry = \<lparr>e_key = None, e_value = NULL\<rparr>"

definition calloc_entries :: "size_t \<Rightarrow> hashtable_entry" where
  "calloc_entries = (\<lambda>_. zero_entry)"

subsection \<open>Creation\<close>

definition hashtable_create :: "env \<Rightarrow> hashtable option" where
  "hashtable_create ev =
     (if \<not> malloc_ok ev then None
      else if \<not> calloc_ok ev then None
      else Some \<lparr>entries = calloc_entries, capacity = INITIAL_CAPACITY, length_t = 0\<rparr>)"

subsection \<open>Hashing\<close>

definition FNV_OFFSET :: u_int64_t where
  "FNV_OFFSET = 14695981039346656037"

definition FNV_PRIME :: u_int64_t where
  "FNV_PRIME = 1099511628211"

fun hash_loop :: "string \<Rightarrow> u_int64_t \<Rightarrow> u_int64_t" where
  "hash_loop [] hash = hash"
| "hash_loop (c # p) hash = hash_loop p ((hash XOR of_char c) * FNV_PRIME)"

definition hash_key :: "string \<Rightarrow> u_int64_t" where
  "hash_key key = hash_loop key FNV_OFFSET"

definition strcmp :: "string \<Rightarrow> string \<Rightarrow> int" where
  "strcmp s1 s2 = (if s1 = s2 then 0 else if s1 < s2 then - 1 else 1)"

subsection \<open>Linear probing\<close>

text \<open>The step of both probing loops: \<^verbatim>\<open>index++; if (index >= capacity) index = 0;\<close>\<close>

definition next_index :: "size_t \<Rightarrow> size_t \<Rightarrow> size_t" where
  "next_index cap index = (let index' = index + 1 in if index' \<ge> cap then 0 else index')"

partial_function (option) get_loop ::
  "(size_t \<Rightarrow> hashtable_entry) \<Rightarrow> size_t \<Rightarrow> string \<Rightarrow> size_t \<Rightarrow> ptr option" where
  "get_loop ents cap key index =
     (case e_key (ents index) of
        None \<Rightarrow> Some NULL
      | Some k \<Rightarrow>
          if strcmp key k = 0 then Some (e_value (ents index))
          else get_loop ents cap key (next_index cap index))"

declare get_loop.simps [code]

definition hashtable_get :: "hashtable \<Rightarrow> string \<Rightarrow> ptr option" where
  "hashtable_get table key =
     (let hash = hash_key key;
          index = hash AND (capacity table - 1)
      in get_loop (entries table) (capacity table) key index)"

text \<open>
  \<^verbatim>\<open>hashtable_set_entry\<close>: the pointer \<^verbatim>\<open>plength\<close> is \<open>None\<close> when null and
  \<open>Some n\<close> when it points to a counter holding \<open>n\<close>. The result is the array, the
  counter and the returned key pointer.
\<close>

partial_function (option) set_entry_loop ::
  "bool \<Rightarrow> (size_t \<Rightarrow> hashtable_entry) \<Rightarrow> size_t \<Rightarrow> string \<Rightarrow> ptr \<Rightarrow> size_t option \<Rightarrow> size_t
     \<Rightarrow> ((size_t \<Rightarrow> hashtable_entry) \<times> size_t option \<times> string option) option" where
  "set_entry_loop sd_ok ents cap key val plength index =
     (case e_key (ents index) of
        Some k \<Rightarrow>
          if strcmp key k = 0
          then Some (ents(index := (ents index)\<lparr>e_value := val\<rparr>), plength, Some k)
          else set_entry_loop sd_ok ents cap key val plength (next_index cap index)
      | None \<Rightarrow>
          (case plength of
             Some n \<Rightarrow>
               if \<not> sd_ok then Some (ents, plength, None)
               else Some (ents(index := \<lparr>e_key = Some key, e_value = val\<rparr>), Some (n + 1), Some key)
           | None \<Rightarrow>
               Some (ents(index := \<lparr>e_key = Some key, e_value = val\<rparr>), None, Some key)))"

declare set_entry_loop.simps [code]

definition hashtable_set_entry ::
  "bool \<Rightarrow> (size_t \<Rightarrow> hashtable_entry) \<Rightarrow> size_t \<Rightarrow> string \<Rightarrow> ptr \<Rightarrow> size_t option
     \<Rightarrow> ((size_t \<Rightarrow> hashtable_entry) \<times> size_t option \<times> string option) option" where
  "hashtable_set_entry sd_ok ents cap key val plength =
     (let hash = hash_key key;
          index = hash AND (cap - 1)
      in set_entry_loop sd_ok ents cap key val plength index)"

subsection \<open>Growth\<close>

function expand_loop ::
  "hashtable \<Rightarrow> (size_t \<Rightarrow> hashtable_entry) \<Rightarrow> size_t \<Rightarrow> size_t
     \<Rightarrow> (size_t \<Rightarrow> hashtable_entry) option" where
  "expand_loop table new_entries new_capacity i =
     (if i < capacity table then
        (let entry = entries table i in
         case e_key entry of
           Some k \<Rightarrow>
             (case hashtable_set_entry True new_entries new_capacity k (e_value entry) None of
                None \<Rightarrow> None
              | Some (new_entries', _, _) \<Rightarrow> expand_loop table new_entries' new_capacity (i + 1))
         | None \<Rightarrow> expand_loop table new_entries new_capacity (i + 1))
      else Some new_entries)"
  by pat_completeness auto
termination
proof (relation "measure (\<lambda>(table, ne, nc, i). unat (capacity table) - unat i)")
  show "wf (measure (\<lambda>(table, ne, nc, i). unat (capacity table) - unat i))"
    by simp
next
  fix table :: hashtable and new_entries :: "size_t \<Rightarrow> hashtable_entry"
    and new_capacity i :: size_t
  assume less: "i < capacity table"
  then have "unat i < unat (capacity table)"
    by (simp add: word_less_nat_alt)
  moreover have "unat (capacity table) < 2 ^ 64"
    using unsigned_less [of "capacity table"] by simp
  ultimately have "unat i + unat (1::size_t) < 2 ^ LENGTH(64)"
    by simp
  then have "unat (i + 1) = unat i + unat (1::size_t)"
    by (simp only: unat_add_lem)
  with less
  show "((table, new_entries, new_capacity, i + 1), (table, new_entries, new_capacity, i))
          \<in> measure (\<lambda>(table, ne, nc, i). unat (capacity table) - unat i)"
    by (simp add: word_less_nat_alt)
  then show "\<And>y. ((table, y, new_capacity, i + 1), (table, new_entries, new_capacity, i))
          \<in> measure (\<lambda>(table, ne, nc, i). unat (capacity table) - unat i)"
    by simp
qed

declare expand_loop.simps [simp del]

text \<open>
  \<^verbatim>\<open>hashtable_expand\<close> returns \<^verbatim>\<open>false\<close> on overflow of the doubled capacity and
  when \<^verbatim>\<open>calloc\<close> fails; the table is then the one it was given.
\<close>

definition hashtable_expand :: "env \<Rightarrow> hashtable \<Rightarrow> (bool \<times> hashtable) option" where
  "hashtable_expand ev table =
     (let new_capacity = capacity table * 2 in
      if new_capacity < capacity table then Some (False, table)
      else if \<not> calloc_ok ev then Some (False, table)
      else
        (case expand_loop table calloc_entries new_capacity 0 of
           None \<Rightarrow> None
         | Some new_entries \<Rightarrow>
             Some (True, table\<lparr>entries := new_entries, capacity := new_capacity\<rparr>)))"

subsection \<open>Insertion\<close>

text \<open>
  The last statement of \<^verbatim>\<open>hashtable_set\<close>: the call of \<^verbatim>\<open>hashtable_set_entry\<close> on
  the table's array with \<^verbatim>\<open>&table->length\<close>.
\<close>

definition set_entry_in_table ::
  "env \<Rightarrow> hashtable \<Rightarrow> string \<Rightarrow> ptr \<Rightarrow> (hashtable \<times> string option) outcome option" where
  "set_entry_in_table ev table key val =
     (case hashtable_set_entry (strdup_ok ev) (entries table) (capacity table) key val
             (Some (length_t table)) of
        None \<Rightarrow> None
      | Some (ents, plength, r) \<Rightarrow>
          Some (Return (table\<lparr>entries := ents,
                  length_t := (case plength of Some n \<Rightarrow> n | None \<Rightarrow> length_t table)\<rparr>, r)))"

text \<open>
  \<^verbatim>\<open>hashtable_set\<close>. The \<^verbatim>\<open>assert\<close> aborts the program unless \<^verbatim>\<open>NDEBUG\<close> is
  defined; the test after it returns \<open>NULL\<close>, here \<open>None\<close>.
\<close>

definition hashtable_set ::
  "env \<Rightarrow> hashtable \<Rightarrow> string \<Rightarrow> ptr \<Rightarrow> (hashtable \<times> string option) outcome option" where
  "hashtable_set ev table key val =
     (if \<not> ndebug ev \<and> \<not> (val \<noteq> NULL) then Some Abort
      else if val = NULL then Some (Return (table, None))
      else if length_t table \<ge> capacity table div 2 then
        (case hashtable_expand ev table of
           None \<Rightarrow> None
         | Some (ok, table') \<Rightarrow>
             if \<not> ok then Some (Return (table', None))
             else set_entry_in_table ev table' key val)
      else set_entry_in_table ev table key val)"

definition hashtable_length :: "hashtable \<Rightarrow> size_t" where
  "hashtable_length table = length_t table"

subsection \<open>Iteration\<close>

text \<open>
  \<^verbatim>\<open>hashtable_iterator\<close> sets two fields of a local variable and leaves \<^verbatim>\<open>key\<close> and
  \<^verbatim>\<open>value\<close> as they were: the variable before the assignments is the first argument.
\<close>

definition hashtable_iterator :: "hashtablei \<Rightarrow> hashtable \<Rightarrow> hashtablei" where
  "hashtable_iterator it table = it\<lparr>it_table := table, it_index := 0\<rparr>"

function hashtable_next :: "hashtablei \<Rightarrow> bool \<times> hashtablei" where
  "hashtable_next it =
     (if it_index it < capacity (it_table it) then
        (case e_key (entries (it_table it) (it_index it)) of
           Some k \<Rightarrow>
             (True, it\<lparr>it_index := it_index it + 1,
                       it_key := e_key (entries (it_table it) (it_index it)),
                       it_value := e_value (entries (it_table it) (it_index it))\<rparr>)
         | None \<Rightarrow> hashtable_next (it\<lparr>it_index := it_index it + 1\<rparr>))
      else (False, it))"
  by pat_completeness auto
termination
proof (relation "measure (\<lambda>it. unat (capacity (it_table it)) - unat (it_index it))")
  show "wf (measure (\<lambda>it. unat (capacity (it_table it)) - unat (it_index it)))"
    by simp
next
  fix it :: hashtablei
  assume less: "it_index it < capacity (it_table it)"
  then have "unat (it_index it) < unat (capacity (it_table it))"
    by (simp add: word_less_nat_alt)
  moreover have "unat (capacity (it_table it)) < 2 ^ 64"
    using unsigned_less [of "capacity (it_table it)"] by simp
  ultimately have "unat (it_index it) + unat (1::size_t) < 2 ^ LENGTH(64)"
    by simp
  then have "unat (it_index it + 1) = unat (it_index it) + unat (1::size_t)"
    by (simp only: unat_add_lem)
  with less
  show "(it\<lparr>it_index := it_index it + 1\<rparr>, it)
          \<in> measure (\<lambda>it. unat (capacity (it_table it)) - unat (it_index it))"
    by (simp add: word_less_nat_alt)
qed

declare hashtable_next.simps [simp del]

subsection \<open>A caller's loop over the iterator\<close>

text \<open>
  The caller's loop \<^verbatim>\<open>while (hashtable_next(&it)) { ... it.key ... it.value ... }\<close>,
  collecting the items it sees.
\<close>

function iterate :: "hashtablei \<Rightarrow> (string option \<times> ptr) list" where
  "iterate it =
     (case hashtable_next it of
        (True, it') \<Rightarrow> (it_key it', it_value it') # iterate it'
      | (False, it') \<Rightarrow> [])"
  by pat_completeness auto
termination
proof (relation "measure (\<lambda>it. unat (capacity (it_table it)) - unat (it_index it))")
  show "wf (measure (\<lambda>it. unat (capacity (it_table it)) - unat (it_index it)))"
    by simp
next
  fix it :: hashtablei and b :: bool and it' :: hashtablei
  assume x: "(b, it') = hashtable_next it" and b: "b = True"
  have step: "hashtable_next it = (True, it') \<Longrightarrow>
      it_table it' = it_table it \<and> unat (it_index it) < unat (it_index it') \<and>
      unat (it_index it') \<le> unat (capacity (it_table it))" for it it'
  proof (induction it rule: hashtable_next.induct)
    case (1 it)
    show ?case
    proof (cases "it_index it < capacity (it_table it)")
      case False
      with "1.prems" show ?thesis
        by (simp add: hashtable_next.simps [of it])
    next
      case less: True
      then have lt: "unat (it_index it) < unat (capacity (it_table it))"
        by (simp add: word_less_nat_alt)
      moreover have "unat (capacity (it_table it)) < 2 ^ 64"
        using unsigned_less [of "capacity (it_table it)"] by simp
      ultimately have "unat (it_index it) + unat (1::size_t) < 2 ^ LENGTH(64)"
        by simp
      then have "unat (it_index it + 1) = unat (it_index it) + unat (1::size_t)"
        by (simp only: unat_add_lem)
      then have inc: "unat (it_index it + 1) = Suc (unat (it_index it))"
        by simp
      show ?thesis
      proof (cases "e_key (entries (it_table it) (it_index it))")
        case None
        with less "1.prems" have "hashtable_next (it\<lparr>it_index := it_index it + 1\<rparr>) = (True, it')"
          by (simp add: hashtable_next.simps [of it])
        with "1.IH" [OF less None] inc show ?thesis
          by simp
      next
        case (Some k)
        with less "1.prems" inc lt show ?thesis
          by (auto simp add: hashtable_next.simps [of it])
      qed
    qed
  qed
  from x b have "hashtable_next it = (True, it')"
    by (simp add: eq_commute)
  from step [OF this]
  show "(it', it) \<in> measure (\<lambda>it. unat (capacity (it_table it)) - unat (it_index it))"
    by auto
qed

declare iterate.simps [simp del]

section \<open>Specification vocabulary\<close>

subsection \<open>FNV-1a, as the specification words it\<close>

text \<open>
  The accumulator starts at the offset constant; each byte is XORed into it and the
  result is multiplied by the prime constant, modulo \<open>2 ^ 64\<close>.
\<close>

definition fnv1a_64 :: "nat list \<Rightarrow> nat" where
  "fnv1a_64 bytes =
     foldl (\<lambda>acc b. ((acc XOR b) * 1099511628211) mod 2 ^ 64) 14695981039346656037 bytes"

subsection \<open>Probe sequences\<close>

text \<open>The index at which both loops start for a key, and the index after \<open>j\<close> steps.\<close>

definition home :: "size_t \<Rightarrow> string \<Rightarrow> size_t" where
  "home cap key = hash_key key AND (cap - 1)"

definition probe :: "size_t \<Rightarrow> size_t \<Rightarrow> nat \<Rightarrow> size_t" where
  "probe cap start j = (next_index cap ^^ j) start"

text \<open>A loop walks past a slot when the slot holds another key.\<close>

definition passes :: "(size_t \<Rightarrow> hashtable_entry) \<Rightarrow> string \<Rightarrow> size_t \<Rightarrow> bool" where
  "passes ents key i = (case e_key (ents i) of None \<Rightarrow> False | Some k \<Rightarrow> k \<noteq> key)"

text \<open>The loop started at \<open>start\<close> leaves at its step \<open>j\<close>, and not before.\<close>

definition stops_at ::
  "(size_t \<Rightarrow> hashtable_entry) \<Rightarrow> size_t \<Rightarrow> string \<Rightarrow> size_t \<Rightarrow> nat \<Rightarrow> bool" where
  "stops_at ents cap key start j \<longleftrightarrow>
     (\<forall>j' \<in> set [0..<j]. passes ents key (probe cap start j')) \<and>
     \<not> passes ents key (probe cap start j)"

text \<open>What \<^verbatim>\<open>hashtable_get\<close> returns when its loop leaves at slot \<open>i\<close>.\<close>

definition get_at :: "(size_t \<Rightarrow> hashtable_entry) \<Rightarrow> size_t \<Rightarrow> ptr" where
  "get_at ents i = (case e_key (ents i) of None \<Rightarrow> NULL | Some k \<Rightarrow> e_value (ents i))"

text \<open>What \<^verbatim>\<open>hashtable_set_entry\<close> returns when its loop leaves at slot \<open>i\<close>.\<close>

definition set_at ::
  "bool \<Rightarrow> (size_t \<Rightarrow> hashtable_entry) \<Rightarrow> string \<Rightarrow> ptr \<Rightarrow> size_t option \<Rightarrow> size_t
     \<Rightarrow> (size_t \<Rightarrow> hashtable_entry) \<times> size_t option \<times> string option" where
  "set_at sd_ok ents key val plength i =
     (case e_key (ents i) of
        Some k \<Rightarrow> (ents(i := (ents i)\<lparr>e_value := val\<rparr>), plength, Some k)
      | None \<Rightarrow>
          (case plength of
             Some n \<Rightarrow>
               if \<not> sd_ok then (ents, plength, None)
               else (ents(i := \<lparr>e_key = Some key, e_value = val\<rparr>), Some (n + 1), Some key)
           | None \<Rightarrow> (ents(i := \<lparr>e_key = Some key, e_value = val\<rparr>), None, Some key)))"

subsection \<open>Table invariants\<close>

text \<open>The occupied slots of an array of \<open>cap\<close> entries.\<close>

definition occupied :: "(size_t \<Rightarrow> hashtable_entry) \<Rightarrow> size_t \<Rightarrow> size_t set" where
  "occupied ents cap = {i. i < cap \<and> e_key (ents i) \<noteq> None}"

text \<open>The key and value pairs stored in the first \<open>cap\<close> slots.\<close>

definition contents :: "(size_t \<Rightarrow> hashtable_entry) \<Rightarrow> size_t \<Rightarrow> (string \<times> ptr) set" where
  "contents ents cap = {(k, v). \<exists>i. i < cap \<and> e_key (ents i) = Some k \<and> e_value (ents i) = v}"

text \<open>
  Every stored key sits where the probe for it stops: all slots from its home index up
  to its own hold other keys.
\<close>

definition chain_ok :: "(size_t \<Rightarrow> hashtable_entry) \<Rightarrow> size_t \<Rightarrow> bool" where
  "chain_ok ents cap \<longleftrightarrow>
     (\<forall>i k. i < cap \<and> e_key (ents i) = Some k \<longrightarrow>
        (\<exists>j. stops_at ents cap k (home cap k) j \<and> probe cap (home cap k) j = i))"

text \<open>I1: the capacity is a power of two (so at least 1).\<close>

definition I1 :: "hashtable \<Rightarrow> bool" where
  "I1 table \<longleftrightarrow> (\<exists>n \<in> set [0..<64]. capacity table = 2 ^ n)"

text \<open>I2: the length is at most half the capacity.\<close>

definition I2 :: "hashtable \<Rightarrow> bool" where
  "I2 table \<longleftrightarrow> length_t table \<le> capacity table div 2"

text \<open>
  The invariants of a table: I1, I2, the length counts the occupied slots, and every
  key sits on its probe chain.
\<close>

definition table_inv :: "hashtable \<Rightarrow> bool" where
  "table_inv table \<longleftrightarrow>
     I1 table \<and> I2 table \<and>
     unat (length_t table) = card (occupied (entries table) (capacity table)) \<and>
     chain_ok (entries table) (capacity table)"

text \<open>
  The tables a program can hold: made by \<^verbatim>\<open>hashtable_create\<close>, changed by calls of
  \<^verbatim>\<open>hashtable_set\<close> that return, whatever they return and whichever memory requests
  fail.
\<close>

inductive reachable :: "hashtable \<Rightarrow> bool" where
  created: "hashtable_create ev = Some table \<Longrightarrow> reachable table"
| after_set: "reachable table \<Longrightarrow> hashtable_set ev table key val = Some (Return (table', r))
     \<Longrightarrow> reachable table'"

text \<open>
  \<open>grows table table'\<close>: some number of successful calls of \<^verbatim>\<open>hashtable_expand\<close> lead
  from \<open>table\<close> to \<open>table'\<close>.
\<close>

inductive grows :: "hashtable \<Rightarrow> hashtable \<Rightarrow> bool" where
  grows_refl: "grows table table"
| grows_step: "grows table table' \<Longrightarrow> hashtable_expand ev table' = Some (True, table'')
     \<Longrightarrow> grows table table''"

subsection \<open>Growth at a call of \<^verbatim>\<open>hashtable_set\<close>\<close>

text \<open>The test of \<^verbatim>\<open>hashtable_set\<close> that sends it to \<^verbatim>\<open>hashtable_expand\<close>.\<close>

definition needs_growth :: "hashtable \<Rightarrow> bool" where
  "needs_growth table \<longleftrightarrow> capacity table div 2 \<le> length_t table"

text \<open>A growth succeeds: \<^verbatim>\<open>calloc\<close> succeeds and twice the capacity fits \<^verbatim>\<open>size_t\<close>.\<close>

definition can_grow :: "env \<Rightarrow> hashtable \<Rightarrow> bool" where
  "can_grow ev table \<longleftrightarrow> calloc_ok ev \<and> 2 * unat (capacity table) < 2 ^ 64"

subsection \<open>The items of an iteration\<close>

text \<open>The occupied slots from index \<open>n\<close> on, in index order, as the items an iteration gives.\<close>

definition items_from :: "hashtable \<Rightarrow> nat \<Rightarrow> (string option \<times> ptr) list" where
  "items_from table n =
     map (\<lambda>i. (e_key (entries table i), e_value (entries table i)))
       (filter (\<lambda>i. e_key (entries table i) \<noteq> None)
          (map of_nat [n..<unat (capacity table)]))"

subsection \<open>Example environments and tables\<close>

text \<open>An environment in which every request succeeds and assertions are compiled in.\<close>

definition all_ok :: env where
  "all_ok = \<lparr>ndebug = False, malloc_ok = True, calloc_ok = True, strdup_ok = True\<rparr>"


text \<open>An environment in which \<^verbatim>\<open>calloc\<close> fails.\<close>

definition no_calloc :: env where
  "no_calloc = \<lparr>ndebug = False, malloc_ok = True, calloc_ok = False, strdup_ok = True\<rparr>"

text \<open>Environments compiled with \<^verbatim>\<open>NDEBUG\<close>.\<close>

definition ndebug_ok :: env where
  "ndebug_ok = \<lparr>ndebug = True, malloc_ok = True, calloc_ok = True, strdup_ok = True\<rparr>"

definition ndebug_no_calloc :: env where
  "ndebug_no_calloc = \<lparr>ndebug = True, malloc_ok = True, calloc_ok = False, strdup_ok = True\<rparr>"

text \<open>The table that \<^verbatim>\<open>hashtable_create\<close> returns, and the same table after a growth.\<close>

definition empty_table :: hashtable where
  "empty_table = \<lparr>entries = calloc_entries, capacity = INITIAL_CAPACITY, length_t = 0\<rparr>"


text \<open>The created table after \<^verbatim>\<open>hashtable_set(table, "a", (void*)1)\<close>.\<close>

definition table_a :: hashtable where
  "table_a = \<lparr>entries = calloc_entries(0 := \<lparr>e_key = Some ''a'', e_value = 1\<rparr>),
     capacity = 2, length_t = 1\<rparr>"

text \<open>The table \<open>table_a\<close> after one growth and after two.\<close>

definition table_a4 :: hashtable where
  "table_a4 = \<lparr>entries = calloc_entries(0 := \<lparr>e_key = Some ''a'', e_value = 1\<rparr>),
     capacity = 4, length_t = 1\<rparr>"

definition table_a8 :: hashtable where
  "table_a8 = \<lparr>entries = calloc_entries(4 := \<lparr>e_key = Some ''a'', e_value = 1\<rparr>),
     capacity = 8, length_t = 1\<rparr>"

text \<open>The table \<open>table_a\<close> after \<^verbatim>\<open>hashtable_set(table, "a", (void*)2)\<close>.\<close>

definition table_a4_2 :: hashtable where
  "table_a4_2 = \<lparr>entries = calloc_entries(0 := \<lparr>e_key = Some ''a'', e_value = 2\<rparr>),
     capacity = 4, length_t = 1\<rparr>"

text \<open>A table whose capacity cannot be doubled.\<close>

definition huge_table :: hashtable where
  "huge_table = \<lparr>entries = calloc_entries, capacity = 2 ^ 63, length_t = 2 ^ 62\<rparr>"

text \<open>A local variable of type \<^verbatim>\<open>hashtablei\<close> before \<^verbatim>\<open>hashtable_iterator\<close> fills it.\<close>

definition some_iterator :: hashtablei where
  "some_iterator = \<lparr>it_key = None, it_value = 7, it_table = empty_table, it_index = 5\<rparr>"

section \<open>Properties of hashing\<close>

lemma strcmp_eq [simp]: "strcmp s1 s2 = 0 \<longleftrightarrow> s1 = s2"
  by (simp add: strcmp_def)

lemma unat_of_char: "unat (of_char c :: u_int64_t) = of_char c"
proof -
  have "(of_char c :: nat) < 256"
    by (rule nat_of_char_less_256)
  moreover have "(256::nat) \<le> 2 ^ 64"
    by simp
  ultimately have "(of_char c :: nat) < 2 ^ 64"
    by (rule less_le_trans)
  then have "(of_char c :: nat) mod 2 ^ 64 = of_char c"
    by (rule mod_less)
  moreover have "unat (of_nat (of_char c) :: u_int64_t) = (of_char c :: nat) mod 2 ^ LENGTH(64)"
    by (rule unat_of_nat)
  ultimately show ?thesis
    by (simp add: of_nat_of_char)
qed

lemma hash_loop_fnv1a:
  "unat (hash_loop key h) =
     foldl (\<lambda>acc b. ((acc XOR b) * 1099511628211) mod 2 ^ 64) (unat h) (map of_char key)"
proof (induction key arbitrary: h)
  case Nil
  show ?case by simp
next
  case (Cons c key)
  have "unat ((h XOR of_char c) * FNV_PRIME) = ((unat h XOR of_char c) * 1099511628211) mod 2 ^ 64"
    by (simp add: unat_word_ariths unsigned_xor_eq unat_of_char FNV_PRIME_def)
  with Cons.IH [of "(h XOR of_char c) * FNV_PRIME"] show ?case
    by simp
qed

lemma hash_key_empty: "hash_key [] = 0xcbf29ce484222325"
  by (simp add: hash_key_def FNV_OFFSET_def)

lemma hash_key_a: "hash_key ''a'' = 0xaf63dc4c8601ec8c"
  by (simp add: hash_key_def FNV_OFFSET_def FNV_PRIME_def)

lemma hash_key_foobar: "hash_key ''foobar'' = 0x85944171f73967e8"
  by (simp add: hash_key_def FNV_OFFSET_def FNV_PRIME_def)

text \<open>
  Claim C9. The hash of a key is the 64-bit FNV-1a of its bytes: the accumulator starts at
  the offset constant, and each byte is XORed into it before a multiplication by the prime
  constant, modulo \<open>2 ^ 64\<close>. Both \<^verbatim>\<open>hashtable_get\<close> and \<^verbatim>\<open>hashtable_set_entry\<close>
  start their loop at the hash ANDed with the capacity minus one.
\<close>

theorem hash_key_is_fnv1a:
  "unat (hash_key key) = fnv1a_64 (map of_char key) \<and>
   hashtable_get table key =
     get_loop (entries table) (capacity table) key (hash_key key AND (capacity table - 1)) \<and>
   hashtable_set_entry sd_ok ents cap key val plength =
     set_entry_loop sd_ok ents cap key val plength (hash_key key AND (cap - 1))"
  by (simp add: hash_key_def fnv1a_64_def hash_loop_fnv1a FNV_OFFSET_def
      hashtable_get_def hashtable_set_entry_def)

section \<open>The probing loops\<close>

lemma probe_0 [simp]: "probe cap start 0 = start"
  by (simp add: probe_def)

lemma probe_Suc: "probe cap start (Suc j) = probe cap (next_index cap start) j"
  by (simp add: probe_def funpow_swap1)

lemma probe_Suc': "probe cap start (Suc j) = next_index cap (probe cap start j)"
  by (simp add: probe_def)

lemma stops_at_alt:
  "stops_at ents cap key start j \<longleftrightarrow>
     (\<forall>j'<j. passes ents key (probe cap start j')) \<and> \<not> passes ents key (probe cap start j)"
  by (auto simp add: stops_at_def)

lemma stops_at_0: "stops_at ents cap key start 0 \<longleftrightarrow> \<not> passes ents key start"
  by (simp add: stops_at_alt)

lemma stops_at_Suc:
  "stops_at ents cap key start (Suc j) \<longleftrightarrow>
     passes ents key start \<and> stops_at ents cap key (next_index cap start) j"
proof -
  have "(\<forall>j'<Suc j. passes ents key (probe cap start j')) \<longleftrightarrow>
      passes ents key start \<and> (\<forall>j'<j. passes ents key (probe cap (next_index cap start) j'))"
    by (auto simp add: less_Suc_eq_0_disj probe_Suc)
  then show ?thesis
    by (simp add: stops_at_alt probe_Suc)
qed

lemma stops_at_unique:
  assumes "stops_at ents cap key start j" and "stops_at ents cap key start j'"
  shows "j = j'"
proof (rule ccontr)
  assume "j \<noteq> j'"
  then consider "j < j'" | "j' < j"
    by linarith
  then show False
    using assms by cases (auto simp add: stops_at_alt)
qed

lemma get_loop_step:
  "passes ents key index \<Longrightarrow>
     get_loop ents cap key index = get_loop ents cap key (next_index cap index)"
  by (subst get_loop.simps) (auto simp add: passes_def split: option.splits)

lemma get_loop_stop:
  "\<not> passes ents key index \<Longrightarrow> get_loop ents cap key index = Some (get_at ents index)"
  by (subst get_loop.simps) (auto simp add: passes_def get_at_def split: option.splits)

lemma get_loop_stops_at:
  "stops_at ents cap key start j \<Longrightarrow>
     get_loop ents cap key start = Some (get_at ents (probe cap start j))"
proof (induction j arbitrary: start)
  case 0
  then show ?case
    by (simp add: stops_at_0 get_loop_stop)
next
  case (Suc j)
  then show ?case
    by (simp add: stops_at_Suc get_loop_step probe_Suc)
qed

lemma set_entry_loop_step:
  "passes ents key index \<Longrightarrow>
     set_entry_loop sd_ok ents cap key val plength index =
       set_entry_loop sd_ok ents cap key val plength (next_index cap index)"
  by (subst set_entry_loop.simps) (auto simp add: passes_def split: option.splits)

lemma set_entry_loop_stop:
  "\<not> passes ents key index \<Longrightarrow>
     set_entry_loop sd_ok ents cap key val plength index =
       Some (set_at sd_ok ents key val plength index)"
  by (subst set_entry_loop.simps) (auto simp add: passes_def set_at_def split: option.splits)

lemma set_entry_loop_stops_at:
  "stops_at ents cap key start j \<Longrightarrow>
     set_entry_loop sd_ok ents cap key val plength start =
       Some (set_at sd_ok ents key val plength (probe cap start j))"
proof (induction j arbitrary: start)
  case 0
  then show ?case
    by (simp add: stops_at_0 set_entry_loop_stop)
next
  case (Suc j)
  then show ?case
    by (simp add: stops_at_Suc set_entry_loop_step probe_Suc)
qed

text \<open>A loop that returns has left at some step.\<close>

lemma set_entry_loop_returns:
  assumes "set_entry_loop sd_ok ents cap key val plength start = Some r"
  shows "\<exists>j. stops_at ents cap key start j"
proof (rule set_entry_loop.raw_induct
    [where P = "\<lambda>sd_ok ents cap key val plength start r. \<exists>j. stops_at ents cap key start j",
      OF _ assms])
  fix f :: "bool \<Rightarrow> (size_t \<Rightarrow> hashtable_entry) \<Rightarrow> size_t \<Rightarrow> string \<Rightarrow> ptr \<Rightarrow> size_t option
      \<Rightarrow> size_t \<Rightarrow> ((size_t \<Rightarrow> hashtable_entry) \<times> size_t option \<times> string option) option"
    and sd_ok ents cap key val plength index r
  assume IH: "\<And>sd_ok ents cap key val plength index r.
      f sd_ok ents cap key val plength index = Some r \<Longrightarrow> \<exists>j. stops_at ents cap key index j"
  assume hyps: "(case e_key (ents index) of
      None \<Rightarrow>
        (case plength of
           None \<Rightarrow> Some (ents(index := \<lparr>e_key = Some key, e_value = val\<rparr>), None, Some key)
         | Some n \<Rightarrow>
             if \<not> sd_ok then Some (ents, plength, None)
             else Some (ents(index := \<lparr>e_key = Some key, e_value = val\<rparr>), Some (n + 1), Some key))
    | Some k \<Rightarrow>
        if strcmp key k = 0
        then Some (ents(index := (ents index)\<lparr>e_value := val\<rparr>), plength, Some k)
        else f sd_ok ents cap key val plength (next_index cap index)) = Some r"
  show "\<exists>j. stops_at ents cap key index j"
  proof (cases "passes ents key index")
    case False
    then have "stops_at ents cap key index 0"
      by (simp add: stops_at_0)
    then show ?thesis ..
  next
    case True
    with hyps
    have "f sd_ok ents cap key val plength (next_index cap index) = Some r"
      by (auto simp add: passes_def split: option.splits)
    then obtain j where "stops_at ents cap key (next_index cap index) j"
      using IH by blast
    with True have "stops_at ents cap key index (Suc j)"
      by (simp add: stops_at_Suc)
    then show ?thesis ..
  qed
qed

lemma get_loop_returns:
  assumes "get_loop ents cap key start = Some r"
  shows "\<exists>j. stops_at ents cap key start j"
proof (rule get_loop.raw_induct
    [where P = "\<lambda>ents cap key start r. \<exists>j. stops_at ents cap key start j", OF _ assms])
  fix f :: "(size_t \<Rightarrow> hashtable_entry) \<Rightarrow> size_t \<Rightarrow> string \<Rightarrow> size_t \<Rightarrow> ptr option"
    and ents cap key index r
  assume IH: "\<And>ents cap key index r.
      f ents cap key index = Some r \<Longrightarrow> \<exists>j. stops_at ents cap key index j"
  assume hyps: "(case e_key (ents index) of
      None \<Rightarrow> Some NULL
    | Some k \<Rightarrow>
        if strcmp key k = 0 then Some (e_value (ents index))
        else f ents cap key (next_index cap index)) = Some r"
  show "\<exists>j. stops_at ents cap key index j"
  proof (cases "passes ents key index")
    case False
    then have "stops_at ents cap key index 0"
      by (simp add: stops_at_0)
    then show ?thesis ..
  next
    case True
    with hyps have "f ents cap key (next_index cap index) = Some r"
      by (auto simp add: passes_def split: option.splits)
    then obtain j where "stops_at ents cap key (next_index cap index) j"
      using IH by blast
    with True have "stops_at ents cap key index (Suc j)"
      by (simp add: stops_at_Suc)
    then show ?thesis ..
  qed
qed

text \<open>Writing the key into the slot where the probe for it stops keeps the probe.\<close>

lemma stops_at_store:
  assumes "stops_at ents cap key start j"
  shows "stops_at (ents(probe cap start j := \<lparr>e_key = Some key, e_value = val\<rparr>)) cap key start j"
proof -
  have "probe cap start j' \<noteq> probe cap start j" if "j' < j" for j'
    using assms that by (auto simp add: stops_at_alt)
  with assms show ?thesis
    by (auto simp add: stops_at_alt passes_def)
qed

lemma set_at_stored:
  assumes "\<not> passes ents key i" and "set_at sd_ok ents key val plength i = (ents', plength', Some k)"
  shows "ents' = ents(i := \<lparr>e_key = Some key, e_value = val\<rparr>) \<and> k = key"
  using assms
  by (auto simp add: set_at_def passes_def split: option.splits if_splits)

lemma hashtable_set_entry_get:
  assumes "hashtable_set_entry sd_ok ents cap key val plength = Some (ents', plength', Some k)"
  shows "get_loop ents' cap key (home cap key) = Some val"
proof -
  from assms have loop: "set_entry_loop sd_ok ents cap key val plength (home cap key) =
      Some (ents', plength', Some k)"
    by (simp add: hashtable_set_entry_def home_def)
  then obtain j where j: "stops_at ents cap key (home cap key) j"
    using set_entry_loop_returns by blast
  let ?i = "probe cap (home cap key) j"
  from j have "\<not> passes ents key ?i"
    by (simp add: stops_at_alt)
  moreover from loop set_entry_loop_stops_at [OF j]
  have "set_at sd_ok ents key val plength ?i = (ents', plength', Some k)"
    by simp
  ultimately have ents': "ents' = ents(?i := \<lparr>e_key = Some key, e_value = val\<rparr>)"
    using set_at_stored by blast
  from stops_at_store [OF j] have "stops_at ents' cap key (home cap key) j"
    by (simp add: ents')
  from get_loop_stops_at [OF this] show ?thesis
    by (simp add: ents' get_at_def)
qed

lemma set_entry_in_table_get:
  assumes "set_entry_in_table ev table key val = Some (Return (table', Some k))"
  shows "hashtable_get table' key = Some val"
proof -
  from assms obtain ents' plength' where
    se: "hashtable_set_entry (strdup_ok ev) (entries table) (capacity table) key val
           (Some (length_t table)) = Some (ents', plength', Some k)"
    and t': "entries table' = ents'" "capacity table' = capacity table"
    by (auto simp add: set_entry_in_table_def split: option.splits)
  from hashtable_set_entry_get [OF se] show ?thesis
    by (simp add: hashtable_get_def home_def t')
qed

section \<open>Round trip\<close>

lemma hashtable_set_get:
  assumes "val \<noteq> NULL"
    and "hashtable_set ev table key val = Some (Return (table', Some k))"
  shows "hashtable_get table' key = Some val"
proof (cases "length_t table \<ge> capacity table div 2")
  case False
  with assms have "set_entry_in_table ev table key val = Some (Return (table', Some k))"
    by (simp add: hashtable_set_def)
  then show ?thesis
    by (rule set_entry_in_table_get)
next
  case True
  with assms obtain grown where
    "set_entry_in_table ev grown key val = Some (Return (table', Some k))"
    by (auto simp add: hashtable_set_def split: option.splits if_splits)
  then show ?thesis
    by (rule set_entry_in_table_get)
qed

text \<open>
  Claim C1. If \<^verbatim>\<open>hashtable_set\<close> with a non-null value succeeds (it returns a key
  pointer that is not null), then \<^verbatim>\<open>hashtable_get\<close> on the resulting table with the same
  key returns exactly that value.
\<close>

theorem set_then_get:
  assumes "val \<noteq> NULL"
    and "hashtable_set ev table key val = Some (Return (table', Some k))"
  shows "hashtable_get table' key = Some val"
  using assms by (rule hashtable_set_get)

lemma hashtable_create_all_ok: "hashtable_create all_ok = Some empty_table"
  by (simp add: hashtable_create_def all_ok_def empty_table_def)

lemma home_a_2: "home 2 ''a'' = 0"
  by (simp add: home_def hash_key_a)

lemma set_a_on_empty: "hashtable_set all_ok empty_table ''a'' 1 = Some (Return (table_a, Some ''a''))"
  by (simp add: hashtable_set_def empty_table_def all_ok_def NULL_def INITIAL_CAPACITY_def
      hashtable_expand_def expand_loop.simps calloc_entries_def zero_entry_def
      set_entry_in_table_def hashtable_set_entry_def home_def [symmetric] home_a_2
      set_entry_loop_stop passes_def set_at_def table_a_def)

theorem set_then_get_witness:
  "(1::ptr) \<noteq> NULL \<and>
   hashtable_set all_ok empty_table ''a'' 1 = Some (Return (table_a, Some ''a'')) \<and>
   hashtable_get table_a ''a'' = Some 1"
proof -
  have "(1::ptr) \<noteq> NULL"
    by (simp add: NULL_def)
  with set_then_get [OF this set_a_on_empty] set_a_on_empty show ?thesis
    by simp
qed

section \<open>Doubling the capacity\<close>

lemma unat_double: "unat (c * 2 :: size_t) = (2 * unat c) mod 2 ^ 64"
  by (simp add: unat_word_ariths mult.commute)

lemma double_wraps_iff: "(c * 2 :: size_t) < c \<longleftrightarrow> 2 ^ 64 \<le> 2 * unat c"
proof -
  have bound: "unat c < 2 ^ 64"
    using unsigned_less [of c] by simp
  show ?thesis
  proof (cases "2 * unat c < 2 ^ 64")
    case True
    then have "unat (c * 2) = 2 * unat c"
      by (simp only: unat_double mod_less)
    with True show ?thesis
      by (simp add: word_less_nat_alt)
  next
    case False
    then have "(2 * unat c) mod 2 ^ 64 = 2 * unat c - 2 ^ 64"
      using bound by (simp add: mod_if)
    then have "unat (c * 2) = 2 * unat c - 2 ^ 64"
      by (simp only: unat_double)
    with False bound show ?thesis
      by (simp add: word_less_nat_alt)
  qed
qed

text \<open>
  Claim C8. When doubling the capacity leaves the range of \<^verbatim>\<open>size_t\<close>, growth returns
  \<^verbatim>\<open>false\<close> and the table is the one it was; a \<^verbatim>\<open>hashtable_set\<close> that needs the
  growth then returns the null pointer and leaves the table as it was. Both calls return.
\<close>

theorem expand_overflow:
  assumes "2 ^ 64 \<le> 2 * unat (capacity table)"
  shows "hashtable_expand ev table = Some (False, table) \<and>
    (val \<noteq> NULL \<and> capacity table div 2 \<le> length_t table \<longrightarrow>
       hashtable_set ev table key val = Some (Return (table, None)))"
proof -
  from assms have "capacity table * 2 < capacity table"
    by (simp only: double_wraps_iff)
  then have "hashtable_expand ev table = Some (False, table)"
    by (simp add: hashtable_expand_def)
  then show ?thesis
    by (simp add: hashtable_set_def)
qed

theorem expand_overflow_witness:
  "(2::nat) ^ 64 \<le> 2 * unat (capacity huge_table) \<and>
   hashtable_expand all_ok huge_table = Some (False, huge_table) \<and>
   (1::ptr) \<noteq> NULL \<and> capacity huge_table div 2 \<le> length_t huge_table \<and>
   hashtable_set all_ok huge_table ''a'' 1 = Some (Return (huge_table, None))"
proof -
  have big: "(2::nat) ^ 64 \<le> 2 * unat (capacity huge_table)"
    by (simp add: huge_table_def)
  have val: "(1::ptr) \<noteq> NULL"
    by (simp add: NULL_def)
  have half: "capacity huge_table div 2 \<le> length_t huge_table"
    by (simp add: huge_table_def)
  from expand_overflow [OF big, of all_ok 1 "''a''"] big val half show ?thesis
    by simp
qed

section \<open>The null value\<close>

text \<open>
  Claim C3, as the code has it. Compiled without \<^verbatim>\<open>NDEBUG\<close>, \<^verbatim>\<open>hashtable_set\<close> with a
  null value stops the program at the assertion, which no call with another value does.
  Compiled with \<^verbatim>\<open>NDEBUG\<close>, it returns the null pointer and leaves the table as it was:
  the result of a failed memory request.
\<close>

theorem set_null_value:
  "(\<not> ndebug ev \<longrightarrow> hashtable_set ev table key NULL = Some Abort) \<and>
   (ndebug ev \<longrightarrow> hashtable_set ev table key NULL = Some (Return (table, None))) \<and>
   (val \<noteq> NULL \<longrightarrow> hashtable_set ev table key val \<noteq> Some Abort)"
  by (auto simp add: hashtable_set_def set_entry_in_table_def split: option.splits)

theorem set_null_value_witness:
  "\<not> ndebug all_ok \<and> hashtable_set all_ok empty_table ''a'' NULL = Some Abort \<and>
   ndebug ndebug_ok \<and>
   hashtable_set ndebug_ok empty_table ''a'' NULL = Some (Return (empty_table, None)) \<and>
   (1::ptr) \<noteq> NULL \<and> hashtable_set all_ok empty_table ''a'' 1 \<noteq> Some Abort"
proof -
  have "\<not> ndebug all_ok" and "ndebug ndebug_ok" and "(1::ptr) \<noteq> NULL"
    by (simp_all add: all_ok_def ndebug_ok_def NULL_def)
  with set_null_value [of all_ok empty_table "''a''" 1]
    set_null_value [of ndebug_ok empty_table "''a''" 1]
  show ?thesis
    by simp
qed

text \<open>
  With \<^verbatim>\<open>NDEBUG\<close>, the call with a null value and a call whose \<^verbatim>\<open>calloc\<close> fails return
  the same: the null pointer, the table as it was.
\<close>

theorem set_null_value_counterexample:
  "hashtable_set ndebug_ok empty_table ''a'' NULL = Some (Return (empty_table, None)) \<and>
   hashtable_set ndebug_no_calloc empty_table ''a'' 1 = Some (Return (empty_table, None))"
  by (simp add: hashtable_set_def ndebug_ok_def ndebug_no_calloc_def NULL_def
      hashtable_expand_def empty_table_def INITIAL_CAPACITY_def)

section \<open>Indices\<close>

lemma unat_inc: "(i::size_t) < c \<Longrightarrow> unat (i + 1) = Suc (unat i)"
proof -
  assume "i < c"
  then have "unat i < unat c"
    by (simp add: word_less_nat_alt)
  moreover have "unat c < 2 ^ 64"
    using unsigned_less [of c] by simp
  ultimately have "unat i + unat (1::size_t) < 2 ^ LENGTH(64)"
    by simp
  then have "unat (i + 1) = unat i + unat (1::size_t)"
    by (simp only: unat_add_lem)
  then show ?thesis
    by simp
qed

lemma less_inc_iff: "(i::size_t) < c \<Longrightarrow> s < i + 1 \<longleftrightarrow> s < i \<or> s = i"
  by (auto simp add: word_less_nat_alt unat_inc word_unat_eq_iff)

lemma next_index_less: "cap \<noteq> 0 \<Longrightarrow> next_index cap i < cap"
  by (auto simp add: next_index_def Let_def word_neq_0_conv not_le)

lemma unat_next_index:
  assumes "i < cap"
  shows "unat (next_index cap i) = Suc (unat i) mod unat cap"
proof (cases "cap \<le> i + 1")
  case True
  with assms have "Suc (unat i) = unat cap"
    by (simp add: word_le_nat_alt word_less_nat_alt unat_inc [OF assms])
  with True show ?thesis
    by (simp add: next_index_def)
next
  case False
  then have "Suc (unat i) < unat cap"
    by (simp add: word_le_nat_alt unat_inc [OF assms])
  with False show ?thesis
    by (simp add: next_index_def unat_inc [OF assms])
qed

lemma probe_less: "cap \<noteq> 0 \<Longrightarrow> start < cap \<Longrightarrow> probe cap start j < cap"
  by (cases j) (simp_all add: probe_Suc' next_index_less)

lemma unat_probe:
  assumes "start < cap"
  shows "unat (probe cap start j) = (unat start + j) mod unat cap"
proof (induction j)
  case 0
  from assms show ?case
    by (simp add: word_less_nat_alt)
next
  case (Suc j)
  from assms have "cap \<noteq> 0"
    by auto
  then have "probe cap start j < cap"
    using assms by (rule probe_less)
  then have "unat (probe cap start (Suc j)) = Suc (unat (probe cap start j)) mod unat cap"
    by (simp add: probe_Suc' unat_next_index)
  with Suc show ?case
    by (simp add: mod_Suc_eq)
qed

lemma home_less: "cap \<noteq> 0 \<Longrightarrow> home cap key < cap"
proof -
  assume "cap \<noteq> 0"
  then have "cap - 1 < cap"
    by (simp add: word_less_nat_alt unat_minus_one unat_gt_0)
  moreover have "home cap key \<le> cap - 1"
    by (simp add: home_def word_and_le1)
  ultimately show ?thesis
    by simp
qed

lemma probe_reaches:
  assumes "start < cap" and "i < cap"
  shows "\<exists>j < unat cap. probe cap start j = i"
proof -
  let ?n = "unat cap"
  let ?j = "(unat i + ?n - unat start) mod ?n"
  from assms have lt: "unat start < ?n" "unat i < ?n"
    by (simp_all add: word_less_nat_alt)
  then have "?j < ?n"
    by simp
  moreover have "(unat start + ?j) mod ?n = unat i"
  proof -
    have "(unat start + ?j) mod ?n = (unat start + (unat i + ?n - unat start)) mod ?n"
      by (simp add: mod_add_right_eq)
    also from lt have "unat start + (unat i + ?n - unat start) = unat i + ?n"
      by simp
    also from lt have "(unat i + ?n) mod ?n = unat i"
      by simp
    finally show ?thesis .
  qed
  then have "probe cap start ?j = i"
    by (simp add: word_unat_eq_iff unat_probe [OF assms(1)])
  ultimately show ?thesis
    by blast
qed

lemma card_less: "card {i::size_t. i < cap} = unat cap"
proof -
  have "{i::size_t. i < cap} = of_nat ` {..<unat cap}"
  proof (rule set_eqI, rule iffI)
    fix i :: size_t
    assume "i \<in> {i. i < cap}"
    then have "unat i \<in> {..<unat cap}" and "i = of_nat (unat i)"
      by (simp_all add: word_less_nat_alt)
    then show "i \<in> of_nat ` {..<unat cap}"
      by (rule_tac rev_image_eqI)
  next
    fix i :: size_t
    assume "i \<in> of_nat ` {..<unat cap}"
    then obtain n where n: "n < unat cap" "i = of_nat n"
      by auto
    moreover have "unat cap < 2 ^ 64"
      using unsigned_less [of cap] by simp
    ultimately have "unat i = n"
      by (simp add: unat_of_nat)
    with n show "i \<in> {i. i < cap}"
      by (simp add: word_less_nat_alt)
  qed
  moreover have "inj_on (of_nat :: nat \<Rightarrow> size_t) {..<unat cap}"
  proof (rule inj_onI)
    fix x y :: nat
    assume xy: "x \<in> {..<unat cap}" "y \<in> {..<unat cap}"
      and eq: "(of_nat x :: size_t) = of_nat y"
    have "unat cap < 2 ^ 64"
      using unsigned_less [of cap] by simp
    with xy have ux: "unat (of_nat x :: size_t) = x" and uy: "unat (of_nat y :: size_t) = y"
      by (simp_all add: unat_of_nat)
    from eq have "unat (of_nat x :: size_t) = unat (of_nat y :: size_t)"
      by (rule arg_cong)
    then show "x = y"
      by (simp only: ux uy)
  qed
  ultimately show ?thesis
    by (simp add: card_image)
qed

section \<open>Occupied slots and probe chains\<close>

lemma finite_occupied [simp]: "finite (occupied ents cap)"
  by simp

lemma occupied_subset: "occupied ents cap \<subseteq> {i. i < cap}"
  by (auto simp add: occupied_def)

lemma card_occupied_le: "card (occupied ents cap) \<le> unat cap"
  using card_mono [OF _ occupied_subset, of cap ents] by (simp add: card_less)

lemma empty_slot:
  assumes "card (occupied ents cap) < unat cap"
  shows "\<exists>i. i < cap \<and> e_key (ents i) = None"
proof (rule ccontr)
  assume "\<not> (\<exists>i. i < cap \<and> e_key (ents i) = None)"
  then have "occupied ents cap = {i. i < cap}"
    by (auto simp add: occupied_def)
  with assms show False
    by (simp add: card_less)
qed

lemma occupied_store:
  "s < cap \<Longrightarrow> occupied (ents(s := \<lparr>e_key = Some k, e_value = v\<rparr>)) cap = insert s (occupied ents cap)"
  by (auto simp add: occupied_def)

lemma occupied_update_value [simp]:
  "occupied (ents(s := (ents s)\<lparr>e_value := v\<rparr>)) cap = occupied ents cap"
  by (auto simp add: occupied_def)

lemma card_occupied_store:
  assumes "s < cap" and "e_key (ents s) = None"
  shows "card (occupied (ents(s := \<lparr>e_key = Some k, e_value = v\<rparr>)) cap) = Suc (card (occupied ents cap))"
proof -
  from assms(2) have "s \<notin> occupied ents cap"
    by (simp add: occupied_def)
  then show ?thesis
    by (simp add: occupied_store [OF assms(1)])
qed

lemma contents_store:
  assumes "s < cap" and "e_key (ents s) = None"
  shows "contents (ents(s := \<lparr>e_key = Some k, e_value = v\<rparr>)) cap = insert (k, v) (contents ents cap)"
proof -
  have "(\<exists>i. i < cap \<and> e_key ((ents(s := \<lparr>e_key = Some k, e_value = v\<rparr>)) i) = Some k' \<and>
           e_value ((ents(s := \<lparr>e_key = Some k, e_value = v\<rparr>)) i) = v') \<longleftrightarrow>
        (k' = k \<and> v' = v) \<or> (\<exists>i. i < cap \<and> e_key (ents i) = Some k' \<and> e_value (ents i) = v')"
    (is "?L \<longleftrightarrow> ?R") for k' v'
  proof
    assume ?L
    then obtain i where i: "i < cap"
      "e_key ((ents(s := \<lparr>e_key = Some k, e_value = v\<rparr>)) i) = Some k'"
      "e_value ((ents(s := \<lparr>e_key = Some k, e_value = v\<rparr>)) i) = v'"
      by blast
    show ?R
    proof (cases "i = s")
      case True
      with i show ?thesis by simp
    next
      case False
      with i have "i < cap \<and> e_key (ents i) = Some k' \<and> e_value (ents i) = v'"
        by simp
      then show ?thesis by blast
    qed
  next
    assume ?R
    then show ?L
    proof
      assume "k' = k \<and> v' = v"
      with assms(1) show ?L
        by (intro exI [of _ s]) simp
    next
      assume "\<exists>i. i < cap \<and> e_key (ents i) = Some k' \<and> e_value (ents i) = v'"
      then obtain i where i: "i < cap" "e_key (ents i) = Some k'" "e_value (ents i) = v'"
        by blast
      with assms(2) have "i \<noteq> s"
        by auto
      with i show ?L
        by (intro exI [of _ i]) simp
    qed
  qed
  then show ?thesis
    by (auto simp add: contents_def)
qed

text \<open>A loop leaves within \<open>cap\<close> steps when some slot lets it leave.\<close>

lemma stop_exists:
  assumes "start < cap" and "i < cap" and "\<not> passes ents key i"
  shows "\<exists>j < unat cap. stops_at ents cap key start j"
proof -
  from probe_reaches [OF assms(1,2)] obtain j0 where
    j0: "j0 < unat cap" "probe cap start j0 = i"
    by blast
  define j where "j = (LEAST j. \<not> passes ents key (probe cap start j))"
  from j0 assms(3) have ex: "\<not> passes ents key (probe cap start j0)"
    by simp
  then have "\<not> passes ents key (probe cap start j)"
    unfolding j_def by (rule LeastI)
  moreover have "passes ents key (probe cap start j')" if "j' < j" for j'
    using that not_less_Least unfolding j_def by blast
  moreover from ex have "j \<le> j0"
    unfolding j_def by (rule Least_le)
  ultimately have "stops_at ents cap key start j" and "j < unat cap"
    using j0(1) by (simp_all add: stops_at_alt)
  then show ?thesis
    by blast
qed

lemma stops_at_slot:
  assumes "stops_at ents cap key start j"
  shows "e_key (ents (probe cap start j)) = None \<or> e_key (ents (probe cap start j)) = Some key"
  using assms by (auto simp add: stops_at_alt passes_def split: option.splits)

lemma chain_ok_get:
  assumes "chain_ok ents cap" and "i < cap" and "e_key (ents i) = Some k"
  shows "get_loop ents cap k (home cap k) = Some (e_value (ents i))"
proof -
  from assms obtain j where "stops_at ents cap k (home cap k) j" "probe cap (home cap k) j = i"
    by (auto simp add: chain_ok_def)
  with get_loop_stops_at [of ents cap k "home cap k" j] assms(3) show ?thesis
    by (simp add: get_at_def)
qed

lemma chain_ok_unique:
  assumes "chain_ok ents cap" and "i < cap" and "i' < cap"
    and "e_key (ents i) = Some k" and "e_key (ents i') = Some k"
  shows "i = i'"
proof -
  from assms obtain j j' where
    "stops_at ents cap k (home cap k) j" "probe cap (home cap k) j = i"
    "stops_at ents cap k (home cap k) j'" "probe cap (home cap k) j' = i'"
    unfolding chain_ok_def by metis
  with stops_at_unique [of ents cap k "home cap k" j j'] show ?thesis
    by simp
qed

text \<open>The probe for a key that no slot holds stops at an empty slot.\<close>

lemma absent_stop:
  assumes "cap \<noteq> 0" and "card (occupied ents cap) < unat cap"
    and "\<forall>i. i < cap \<longrightarrow> e_key (ents i) \<noteq> Some key"
  shows "\<exists>j < unat cap. stops_at ents cap key (home cap key) j \<and>
    probe cap (home cap key) j < cap \<and> e_key (ents (probe cap (home cap key) j)) = None"
proof -
  from empty_slot [OF assms(2)] obtain i where i: "i < cap" "e_key (ents i) = None"
    by blast
  then have "\<not> passes ents key i"
    by (simp add: passes_def)
  with stop_exists [OF home_less [OF assms(1)] i(1)] obtain j where
    j: "j < unat cap" "stops_at ents cap key (home cap key) j"
    by blast
  have less: "probe cap (home cap key) j < cap"
    using assms(1) home_less [OF assms(1)] by (rule probe_less)
  with stops_at_slot [OF j(2)] assms(3) have "e_key (ents (probe cap (home cap key) j)) = None"
    by auto
  with j less show ?thesis
    by blast
qed

text \<open>The probe for a key that a slot holds stops at that slot.\<close>

lemma present_stop:
  assumes "chain_ok ents cap" and "i < cap" and "e_key (ents i) = Some key"
  shows "\<exists>j < unat cap. stops_at ents cap key (home cap key) j \<and> probe cap (home cap key) j = i"
proof -
  from assms obtain j where j: "stops_at ents cap key (home cap key) j" "probe cap (home cap key) j = i"
    by (auto simp add: chain_ok_def)
  from assms(2) have cap: "cap \<noteq> 0"
    by auto
  from assms(3) have "\<not> passes ents key i"
    by (simp add: passes_def)
  with stop_exists [OF home_less [OF cap] assms(2)] obtain j' where
    "j' < unat cap" "stops_at ents cap key (home cap key) j'"
    by blast
  with j stops_at_unique [of ents cap key "home cap key" j j'] show ?thesis
    by auto
qed

lemma passes_update_value [simp]:
  "passes (ents(s := (ents s)\<lparr>e_value := v\<rparr>)) key i = passes ents key i"
  by (simp add: passes_def)

lemma chain_ok_update_value:
  "chain_ok ents cap \<Longrightarrow> chain_ok (ents(s := (ents s)\<lparr>e_value := v\<rparr>)) cap"
  by (simp add: chain_ok_def stops_at_alt)

lemma chain_ok_store:
  assumes chain: "chain_ok ents cap"
    and stop: "stops_at ents cap key (home cap key) j"
    and empty: "e_key (ents (probe cap (home cap key) j)) = None"
  shows "chain_ok (ents(probe cap (home cap key) j := \<lparr>e_key = Some key, e_value = val\<rparr>)) cap"
proof -
  let ?s = "probe cap (home cap key) j"
  let ?ents = "ents(?s := \<lparr>e_key = Some key, e_value = val\<rparr>)"
  have "\<exists>j1. stops_at ?ents cap k (home cap k) j1 \<and> probe cap (home cap k) j1 = i"
    if i: "i < cap" "e_key (?ents i) = Some k" for i k
  proof (cases "i = ?s")
    case True
    with i(2) have "k = key"
      by simp
    with True stops_at_store [OF stop, of val] show ?thesis
      by blast
  next
    case False
    with i(2) have "e_key (ents i) = Some k"
      by simp
    with chain i(1) obtain j1 where
      j1: "stops_at ents cap k (home cap k) j1" "probe cap (home cap k) j1 = i"
      by (auto simp add: chain_ok_def)
    have "passes ?ents k (probe cap (home cap k) j')" if "j' < j1" for j'
    proof -
      from j1(1) that have p: "passes ents k (probe cap (home cap k) j')"
        by (simp add: stops_at_alt)
      with empty have "probe cap (home cap k) j' \<noteq> ?s"
        by (auto simp add: passes_def)
      with p show ?thesis
        by (simp add: passes_def)
    qed
    moreover from j1 False \<open>e_key (ents i) = Some k\<close> have "\<not> passes ?ents k (probe cap (home cap k) j1)"
      by (simp add: passes_def)
    ultimately have "stops_at ?ents cap k (home cap k) j1"
      by (simp add: stops_at_alt)
    with j1(2) show ?thesis
      by blast
  qed
  then show ?thesis
    unfolding chain_ok_def by blast
qed

lemma chain_ok_calloc: "chain_ok calloc_entries cap"
  by (simp add: chain_ok_def calloc_entries_def zero_entry_def)

lemma occupied_calloc [simp]: "occupied calloc_entries cap = {}"
  by (simp add: occupied_def calloc_entries_def zero_entry_def)

lemma contents_calloc [simp]: "contents calloc_entries cap = {}"
  by (simp add: contents_def calloc_entries_def zero_entry_def)

section \<open>Lookup and insertion on a well-formed array\<close>

lemma get_present:
  assumes "chain_ok ents cap" and "(k, v) \<in> contents ents cap"
  shows "get_loop ents cap k (home cap k) = Some v"
  using assms chain_ok_get by (auto simp add: contents_def)

lemma get_absent:
  assumes "cap \<noteq> 0" and "card (occupied ents cap) < unat cap"
    and "\<forall>v. (k, v) \<notin> contents ents cap"
  shows "get_loop ents cap k (home cap k) = Some NULL"
proof -
  from assms(3) have "\<forall>i. i < cap \<longrightarrow> e_key (ents i) \<noteq> Some k"
    by (auto simp add: contents_def)
  from absent_stop [OF assms(1,2) this] obtain j where
    "stops_at ents cap k (home cap k) j" "e_key (ents (probe cap (home cap k) j)) = None"
    by blast
  with get_loop_stops_at [of ents cap k "home cap k" j] show ?thesis
    by (simp add: get_at_def)
qed

lemma get_same_contents:
  assumes "cap \<noteq> 0" and "card (occupied ents cap) < unat cap" and "chain_ok ents cap"
    and "cap' \<noteq> 0" and "card (occupied ents' cap') < unat cap'" and "chain_ok ents' cap'"
    and "contents ents' cap' = contents ents cap"
  shows "get_loop ents' cap' k (home cap' k) = get_loop ents cap k (home cap k)"
proof (cases "\<exists>v. (k, v) \<in> contents ents cap")
  case True
  then obtain v where "(k, v) \<in> contents ents cap"
    by blast
  with assms show ?thesis
    by (simp add: get_present)
next
  case False
  with assms show ?thesis
    by (simp add: get_absent)
qed

lemma set_entry_absent:
  assumes "cap \<noteq> 0" and "card (occupied ents cap) < unat cap"
    and "\<forall>i. i < cap \<longrightarrow> e_key (ents i) \<noteq> Some key"
  shows "\<exists>j < unat cap. stops_at ents cap key (home cap key) j \<and>
    probe cap (home cap key) j < cap \<and> e_key (ents (probe cap (home cap key) j)) = None \<and>
    hashtable_set_entry sd_ok ents cap key val plength =
      Some (set_at sd_ok ents key val plength (probe cap (home cap key) j))"
proof -
  from absent_stop [OF assms] obtain j where
    j: "j < unat cap" "stops_at ents cap key (home cap key) j"
      "probe cap (home cap key) j < cap" "e_key (ents (probe cap (home cap key) j)) = None"
    by blast
  from set_entry_loop_stops_at [OF j(2)]
  have "hashtable_set_entry sd_ok ents cap key val plength =
      Some (set_at sd_ok ents key val plength (probe cap (home cap key) j))"
    by (simp add: hashtable_set_entry_def home_def)
  with j show ?thesis
    by blast
qed

lemma set_entry_present:
  assumes "chain_ok ents cap" and "i < cap" and "e_key (ents i) = Some key"
  shows "hashtable_set_entry sd_ok ents cap key val plength =
    Some (ents(i := (ents i)\<lparr>e_value := val\<rparr>), plength, Some key)"
proof -
  from present_stop [OF assms] obtain j where
    j: "stops_at ents cap key (home cap key) j" "probe cap (home cap key) j = i"
    by blast
  from set_entry_loop_stops_at [OF j(1)] j(2) assms(3) show ?thesis
    by (simp add: hashtable_set_entry_def home_def set_at_def)
qed

section \<open>Growth\<close>

lemma occupied_inc:
  "i < c \<Longrightarrow> occupied ents (i + 1) =
     (if e_key (ents i) = None then occupied ents i else insert i (occupied ents i))"
  by (auto simp add: occupied_def less_inc_iff)

lemma contents_inc:
  assumes "i < c"
  shows "contents ents (i + 1) =
     (case e_key (ents i) of
        None \<Rightarrow> contents ents i
      | Some k \<Rightarrow> insert (k, e_value (ents i)) (contents ents i))"
proof (cases "e_key (ents i)")
  case None
  then show ?thesis
    by (auto simp add: contents_def less_inc_iff [OF assms])
next
  case (Some k)
  then show ?thesis
    by (auto simp add: contents_def less_inc_iff [OF assms])
qed

lemma expand_loop_correct:
  assumes "nc \<noteq> 0" and "unat (capacity table) < unat nc"
    and "chain_ok (entries table) (capacity table)"
    and "i \<le> capacity table"
    and "chain_ok ne nc"
    and "contents ne nc = contents (entries table) i"
    and "card (occupied ne nc) = card (occupied (entries table) i)"
  shows "\<exists>ne'. expand_loop table ne nc i = Some ne' \<and> chain_ok ne' nc \<and>
    contents ne' nc = contents (entries table) (capacity table) \<and>
    card (occupied ne' nc) = card (occupied (entries table) (capacity table))"
  using assms(4-)
proof (induction "unat (capacity table) - unat i" arbitrary: i ne)
  case 0
  then have "i = capacity table"
    by (simp add: word_le_nat_alt word_unat_eq_iff)
  with 0 show ?case
    by (simp add: expand_loop.simps [of table ne nc "capacity table"])
next
  case (Suc n)
  let ?old = "entries table"
  let ?cap = "capacity table"
  from Suc.hyps(2) have less: "i < ?cap"
    by (simp add: word_less_nat_alt)
  then have inc: "unat (i + 1) = Suc (unat i)"
    by (rule unat_inc)
  with less have le': "i + 1 \<le> ?cap"
    by (simp add: word_le_nat_alt word_less_nat_alt)
  from inc Suc.hyps(2) have n: "n = unat ?cap - unat (i + 1)"
    by simp
  show ?case
  proof (cases "e_key (?old i)")
    case None
    with less have "contents ?old (i + 1) = contents ?old i"
      and "occupied ?old (i + 1) = occupied ?old i"
      by (simp_all add: contents_inc [OF less] occupied_inc [OF less])
    with Suc.prems have "contents ne nc = contents ?old (i + 1)"
      and "card (occupied ne nc) = card (occupied ?old (i + 1))"
      by simp_all
    from Suc.hyps(1) [OF n le' Suc.prems(2) this]
    obtain ne' where ne': "expand_loop table ne nc (i + 1) = Some ne'"
      "chain_ok ne' nc" "contents ne' nc = contents ?old ?cap"
      "card (occupied ne' nc) = card (occupied ?old ?cap)"
      by blast
    from less None ne'(1) have "expand_loop table ne nc i = Some ne'"
      by (simp add: expand_loop.simps [of table ne nc i])
    with ne' show ?thesis
      by blast
  next
    case (Some k)
    let ?v = "e_value (?old i)"
    have absent: "\<forall>s. s < nc \<longrightarrow> e_key (ne s) \<noteq> Some k"
    proof (intro allI impI notI)
      fix s
      assume "s < nc" "e_key (ne s) = Some k"
      then have "(k, e_value (ne s)) \<in> contents ne nc"
        by (auto simp add: contents_def)
      with Suc.prems(3) obtain s' where s': "s' < i" "e_key (?old s') = Some k"
        by (auto simp add: contents_def)
      with less have "s' < ?cap"
        by simp
      from chain_ok_unique [OF assms(3) this less s'(2) Some] s'(1) show False
        by simp
    qed
    have "card (occupied ?old i) \<le> unat i"
      by (rule card_occupied_le)
    with less Suc.prems(4) assms(2) have room: "card (occupied ne nc) < unat nc"
      by (simp add: word_less_nat_alt)
    from set_entry_absent [OF assms(1) room absent, of True ?v None]
    obtain j where j: "stops_at ne nc k (home nc k) j" "probe nc (home nc k) j < nc"
      "e_key (ne (probe nc (home nc k) j)) = None"
      "hashtable_set_entry True ne nc k ?v None =
         Some (set_at True ne k ?v None (probe nc (home nc k) j))"
      by blast
    let ?s = "probe nc (home nc k) j"
    let ?ne = "ne(?s := \<lparr>e_key = Some k, e_value = ?v\<rparr>)"
    from j(3,4) have se: "hashtable_set_entry True ne nc k ?v None = Some (?ne, None, Some k)"
      by (simp add: set_at_def)
    have chain: "chain_ok ?ne nc"
      using Suc.prems(2) j(1,3) by (rule chain_ok_store)
    from Some have "contents ?old (i + 1) = insert (k, ?v) (contents ?old i)"
      by (simp add: contents_inc [OF less])
    with Suc.prems(3) have cont: "contents ?ne nc = contents ?old (i + 1)"
      by (simp add: contents_store [of ?s nc ne, OF j(2,3)])
    have "i \<notin> occupied ?old i"
      by (simp add: occupied_def)
    with Some have "card (occupied ?old (i + 1)) = Suc (card (occupied ?old i))"
      by (simp add: occupied_inc [OF less])
    with Suc.prems(4) have card: "card (occupied ?ne nc) = card (occupied ?old (i + 1))"
      by (simp add: card_occupied_store [of ?s nc ne, OF j(2,3)])
    from Suc.hyps(1) [OF n le' chain cont card]
    obtain ne' where ne': "expand_loop table ?ne nc (i + 1) = Some ne'"
      "chain_ok ne' nc" "contents ne' nc = contents ?old ?cap"
      "card (occupied ne' nc) = card (occupied ?old ?cap)"
      by blast
    from less Some se ne'(1) have "expand_loop table ne nc i = Some ne'"
      by (simp add: expand_loop.simps [of table ne nc i])
    with ne' show ?thesis
      by blast
  qed
qed

lemma contents_0 [simp]: "contents ents 0 = {}"
  by (simp add: contents_def)

lemma occupied_0 [simp]: "occupied ents 0 = {}"
  by (simp add: occupied_def)

lemma hashtable_expand_correct:
  assumes "capacity table \<noteq> 0" and "2 * unat (capacity table) < 2 ^ 64"
    and "chain_ok (entries table) (capacity table)" and "calloc_ok ev"
  shows "\<exists>ne. hashtable_expand ev table =
        Some (True, table\<lparr>entries := ne, capacity := capacity table * 2\<rparr>) \<and>
      unat (capacity table * 2) = 2 * unat (capacity table) \<and>
      chain_ok ne (capacity table * 2) \<and>
      contents ne (capacity table * 2) = contents (entries table) (capacity table) \<and>
      card (occupied ne (capacity table * 2)) = card (occupied (entries table) (capacity table))"
proof -
  let ?nc = "capacity table * 2"
  from assms(2) have nc: "unat ?nc = 2 * unat (capacity table)"
    by (simp only: unat_double mod_less)
  from assms(1) have pos: "0 < unat (capacity table)"
    by (simp add: unat_gt_0)
  with nc have "?nc \<noteq> 0" and lt: "unat (capacity table) < unat ?nc"
    by (auto simp add: unat_gt_0 [symmetric] simp del: unat_gt_0)
  from expand_loop_correct [OF this assms(3), of 0 calloc_entries]
  obtain ne where ne: "expand_loop table calloc_entries ?nc 0 = Some ne"
    "chain_ok ne ?nc" "contents ne ?nc = contents (entries table) (capacity table)"
    "card (occupied ne ?nc) = card (occupied (entries table) (capacity table))"
    by (auto simp add: chain_ok_calloc)
  from assms(2) have "\<not> ?nc < capacity table"
    by (simp add: double_wraps_iff)
  with ne(1) assms(4) have "hashtable_expand ev table =
      Some (True, table\<lparr>entries := ne, capacity := ?nc\<rparr>)"
    by (simp add: hashtable_expand_def)
  with nc ne show ?thesis
    by blast
qed

section \<open>The invariants\<close>

lemma I2_nat: "I2 table \<longleftrightarrow> unat (length_t table) \<le> unat (capacity table) div 2"
  by (simp add: I2_def word_le_nat_alt unat_div)

lemma half_nat: "length_t table < capacity table div 2 \<longleftrightarrow>
    unat (length_t table) < unat (capacity table) div 2"
  by (simp add: word_less_nat_alt unat_div)

lemma unat_pow2:
  assumes "n < 64"
  shows "unat (2 ^ n :: size_t) = 2 ^ n"
proof -
  from assms have "(2::nat) ^ n < 2 ^ 64"
    by (simp only: power_strict_increasing_iff one_less_numeral_iff semiring_norm)
  then have "(2::nat) ^ n mod 2 ^ LENGTH(64) = 2 ^ n"
    by simp
  moreover have "unat (of_nat (2 ^ n) :: size_t) = 2 ^ n mod 2 ^ LENGTH(64)"
    by (rule unat_of_nat)
  ultimately show ?thesis
    by simp
qed

lemma I1_nat:
  assumes "I1 table"
  shows "\<exists>n < 64. unat (capacity table) = 2 ^ n"
proof -
  from assms obtain n where n: "n < 64" "capacity table = 2 ^ n"
    by (auto simp add: I1_def)
  then have "unat (capacity table) = 2 ^ n"
    by (simp add: unat_pow2)
  with n show ?thesis
    by blast
qed

lemma I1_nonzero: "I1 table \<Longrightarrow> capacity table \<noteq> 0"
  using I1_nat [of table] by (auto simp add: unat_eq_0 [symmetric] simp del: unat_eq_0)

lemma I1_positive: "I1 table \<Longrightarrow> 1 \<le> unat (capacity table)"
  using I1_nat [of table] by auto

lemma I1_double:
  assumes "I1 table" and "2 * unat (capacity table) < 2 ^ 64"
  shows "I1 (table\<lparr>entries := ne, capacity := capacity table * 2\<rparr>)"
proof -
  from assms(1) obtain n where n: "n < 64" "capacity table = 2 ^ n"
    by (auto simp add: I1_def)
  then have "unat (capacity table) = 2 ^ n"
    by (simp add: unat_pow2)
  with assms(2) have "(2::nat) ^ Suc n < 2 ^ 64"
    by simp
  then have "Suc n < 64"
    by (simp only: power_strict_increasing_iff one_less_numeral_iff semiring_norm)
  moreover from n have "capacity table * 2 = 2 ^ Suc n"
    by simp
  ultimately show ?thesis
    unfolding I1_def by (auto simp del: power_Suc)
qed

lemma table_inv_room:
  assumes "table_inv table"
  shows "card (occupied (entries table) (capacity table)) < unat (capacity table)"
proof -
  from assms have "I1 table" and "I2 table"
    and len: "unat (length_t table) = card (occupied (entries table) (capacity table))"
    by (simp_all add: table_inv_def)
  from \<open>I1 table\<close> have "1 \<le> unat (capacity table)"
    by (rule I1_positive)
  moreover from \<open>I2 table\<close> have "unat (length_t table) \<le> unat (capacity table) div 2"
    by (simp only: I2_nat)
  ultimately show ?thesis
    using len by linarith
qed

lemma table_inv_empty: "table_inv empty_table"
proof -
  have "I1 empty_table"
    unfolding I1_def by (rule bexI [of _ 0]) (simp_all add: empty_table_def INITIAL_CAPACITY_def)
  then show ?thesis
    by (simp add: table_inv_def I2_def empty_table_def chain_ok_calloc)
qed

lemma hashtable_create_inv: "hashtable_create ev = Some table \<Longrightarrow> table_inv table"
  using table_inv_empty by (auto simp add: hashtable_create_def empty_table_def split: if_splits)

text \<open>Lookup in a table that satisfies the invariants.\<close>

lemma hashtable_get_present:
  assumes "table_inv table" and "i < capacity table" and "e_key (entries table i) = Some k"
  shows "hashtable_get table k = Some (e_value (entries table i))"
  using assms chain_ok_get [of "entries table" "capacity table" i k]
  by (simp add: table_inv_def hashtable_get_def home_def)

lemma hashtable_get_absent:
  assumes "table_inv table" and "\<forall>i. i < capacity table \<longrightarrow> e_key (entries table i) \<noteq> Some k"
  shows "hashtable_get table k = Some NULL"
proof -
  from assms(2) have "\<forall>v. (k, v) \<notin> contents (entries table) (capacity table)"
    by (auto simp add: contents_def)
  from get_absent [OF _ table_inv_room [OF assms(1)] this] assms(1) show ?thesis
    by (simp add: table_inv_def I1_nonzero hashtable_get_def home_def)
qed

lemma hashtable_get_same_contents:
  assumes "table_inv table" and "table_inv table'"
    and "contents (entries table') (capacity table') = contents (entries table) (capacity table)"
  shows "hashtable_get table' k = hashtable_get table k"
  using get_same_contents [OF _ table_inv_room [OF assms(1)] _ _ table_inv_room [OF assms(2)] _ assms(3), of k]
    assms(1,2)
  by (simp add: table_inv_def I1_nonzero hashtable_get_def home_def)

text \<open>Growth of a table that satisfies the invariants.\<close>

lemma hashtable_expand_cases:
  assumes "table_inv table"
  obtains (failed) "hashtable_expand ev table = Some (False, table)"
      and "2 ^ 64 \<le> 2 * unat (capacity table) \<or> \<not> calloc_ok ev"
    | (grown) ne where
      "hashtable_expand ev table =
         Some (True, table\<lparr>entries := ne, capacity := capacity table * 2\<rparr>)"
      and "table_inv (table\<lparr>entries := ne, capacity := capacity table * 2\<rparr>)"
      and "unat (capacity table * 2) = 2 * unat (capacity table)"
      and "contents ne (capacity table * 2) = contents (entries table) (capacity table)"
      and "2 * unat (capacity table) < 2 ^ 64" and "calloc_ok ev"
proof (cases "2 ^ 64 \<le> 2 * unat (capacity table) \<or> \<not> calloc_ok ev")
  case True
  then have "hashtable_expand ev table = Some (False, table)"
    by (auto simp add: hashtable_expand_def Let_def double_wraps_iff)
  from this True show ?thesis
    by (rule failed)
next
  case False
  then have small: "2 * unat (capacity table) < 2 ^ 64" and ok: "calloc_ok ev"
    by simp_all
  from assms have I1: "I1 table" and chain: "chain_ok (entries table) (capacity table)"
    by (simp_all add: table_inv_def)
  let ?nc = "capacity table * 2"
  from hashtable_expand_correct [OF I1_nonzero [OF I1] small chain ok]
  obtain ne where ne: "hashtable_expand ev table = Some (True, table\<lparr>entries := ne, capacity := ?nc\<rparr>)"
    "unat ?nc = 2 * unat (capacity table)" "chain_ok ne ?nc"
    "contents ne ?nc = contents (entries table) (capacity table)"
    "card (occupied ne ?nc) = card (occupied (entries table) (capacity table))"
    by blast
  from assms have "unat (length_t table) \<le> unat (capacity table) div 2"
    by (simp add: table_inv_def I2_nat)
  then have "unat (length_t table) \<le> (2 * unat (capacity table)) div 2"
    by linarith
  with ne(2) have "I2 (table\<lparr>entries := ne, capacity := ?nc\<rparr>)"
    by (simp only: I2_nat) simp
  with assms ne I1_double [OF I1 small, of ne]
  have "table_inv (table\<lparr>entries := ne, capacity := ?nc\<rparr>)"
    by (simp add: table_inv_def)
  with ne small ok show ?thesis
    by (intro grown [of ne])
qed

text \<open>Insertion into a table that satisfies the invariants and is less than half full.\<close>

lemma set_entry_in_table_present:
  assumes "table_inv table" and "i < capacity table" and "e_key (entries table i) = Some key"
  shows "set_entry_in_table ev table key val =
      Some (Return (table\<lparr>entries := (entries table)(i := (entries table i)\<lparr>e_value := val\<rparr>)\<rparr>, Some key))"
    and "table_inv (table\<lparr>entries := (entries table)(i := (entries table i)\<lparr>e_value := val\<rparr>)\<rparr>)"
proof -
  from assms(1) have chain: "chain_ok (entries table) (capacity table)"
    by (simp add: table_inv_def)
  from set_entry_present [OF chain assms(2,3)]
  show "set_entry_in_table ev table key val =
      Some (Return (table\<lparr>entries := (entries table)(i := (entries table i)\<lparr>e_value := val\<rparr>)\<rparr>, Some key))"
    by (simp add: set_entry_in_table_def)
  from assms(1) chain_ok_update_value [OF chain, of i val]
  show "table_inv (table\<lparr>entries := (entries table)(i := (entries table i)\<lparr>e_value := val\<rparr>)\<rparr>)"
    by (simp add: table_inv_def I1_def I2_def)
qed

lemma set_entry_in_table_absent:
  assumes inv: "table_inv table" and half: "length_t table < capacity table div 2"
    and absent: "\<forall>i. i < capacity table \<longrightarrow> e_key (entries table i) \<noteq> Some key"
  shows "\<exists>j < unat (capacity table).
      stops_at (entries table) (capacity table) key (home (capacity table) key) j \<and>
      e_key (entries table (probe (capacity table) (home (capacity table) key) j)) = None \<and>
      (if strdup_ok ev
       then set_entry_in_table ev table key val =
           Some (Return (table\<lparr>entries := (entries table)
                     (probe (capacity table) (home (capacity table) key) j :=
                        \<lparr>e_key = Some key, e_value = val\<rparr>),
                   length_t := length_t table + 1\<rparr>, Some key)) \<and>
         table_inv (table\<lparr>entries := (entries table)
                     (probe (capacity table) (home (capacity table) key) j :=
                        \<lparr>e_key = Some key, e_value = val\<rparr>),
                   length_t := length_t table + 1\<rparr>)
       else set_entry_in_table ev table key val = Some (Return (table, None)))"
proof -
  let ?ents = "entries table"
  let ?cap = "capacity table"
  from inv have I1: "I1 table" and chain: "chain_ok ?ents ?cap"
    and len: "unat (length_t table) = card (occupied ?ents ?cap)"
    by (simp_all add: table_inv_def)
  from set_entry_absent [OF I1_nonzero [OF I1] table_inv_room [OF inv] absent,
      of "strdup_ok ev" val "Some (length_t table)"]
  obtain j where j: "j < unat ?cap" "stops_at ?ents ?cap key (home ?cap key) j"
    "probe ?cap (home ?cap key) j < ?cap" "e_key (?ents (probe ?cap (home ?cap key) j)) = None"
    "hashtable_set_entry (strdup_ok ev) ?ents ?cap key val (Some (length_t table)) =
       Some (set_at (strdup_ok ev) ?ents key val (Some (length_t table)) (probe ?cap (home ?cap key) j))"
    by blast
  let ?s = "probe ?cap (home ?cap key) j"
  let ?table = "table\<lparr>entries := ?ents(?s := \<lparr>e_key = Some key, e_value = val\<rparr>),
    length_t := length_t table + 1\<rparr>"
  have "set_entry_in_table ev table key val = Some (Return (table, None))" if "\<not> strdup_ok ev"
    using that j(4,5) by (simp add: set_entry_in_table_def set_at_def)
  moreover have "set_entry_in_table ev table key val = Some (Return (?table, Some key))"
    if "strdup_ok ev"
    using that j(4,5) by (simp add: set_entry_in_table_def set_at_def)
  moreover have "table_inv ?table"
  proof -
    from half have inc: "unat (length_t table + 1) = Suc (unat (length_t table))"
      by (rule unat_inc)
    with half have "I2 ?table"
      by (simp add: I2_nat half_nat)
    moreover from I1 have "I1 ?table"
      by (simp add: I1_def)
    moreover from len inc have "unat (length_t ?table) = card (occupied (entries ?table) (capacity ?table))"
      by (simp add: card_occupied_store [of ?s ?cap ?ents, OF j(3,4)])
    moreover from chain_ok_store [OF chain j(2,4), of val] have "chain_ok (entries ?table) (capacity ?table)"
      by simp
    ultimately show ?thesis
      by (simp add: table_inv_def)
  qed
  ultimately show ?thesis
    using j(1,2,4) by (intro exI [of _ j]) simp
qed

lemma set_entry_in_table_inv:
  assumes "table_inv table" and "length_t table < capacity table div 2"
  shows "\<exists>table' r. set_entry_in_table ev table key val = Some (Return (table', r)) \<and>
    table_inv table' \<and> capacity table' = capacity table"
proof (cases "\<exists>i. i < capacity table \<and> e_key (entries table i) = Some key")
  case True
  then obtain i where "i < capacity table" "e_key (entries table i) = Some key"
    by blast
  from set_entry_in_table_present(1) [OF assms(1) this, of ev val]
    set_entry_in_table_present(2) [OF assms(1) this, of val]
  show ?thesis
    by force
next
  case False
  then have "\<forall>i. i < capacity table \<longrightarrow> e_key (entries table i) \<noteq> Some key"
    by blast
  from set_entry_in_table_absent [OF assms this, of ev val] assms(1) show ?thesis
    by (cases "strdup_ok ev") auto
qed

lemma half_after_growth:
  assumes "I1 table" and "I2 table" and "unat (capacity table * 2) = 2 * unat (capacity table)"
  shows "length_t table < (capacity table * 2) div 2"
proof -
  from assms(1) have "1 \<le> unat (capacity table)"
    by (rule I1_positive)
  moreover from assms(2) have "unat (length_t table) \<le> unat (capacity table) div 2"
    by (simp add: I2_nat)
  ultimately have "unat (length_t table) < unat (capacity table)"
    by linarith
  with assms(3) show ?thesis
    by (simp add: word_less_nat_alt unat_div)
qed

lemma hashtable_set_inv:
  assumes "table_inv table"
  shows "\<exists>out. hashtable_set ev table key val = Some out \<and>
    (\<forall>table' r. out = Return (table', r) \<longrightarrow> table_inv table')"
proof (cases "val = NULL")
  case True
  with assms show ?thesis
    by (simp add: hashtable_set_def)
next
  case val: False
  show ?thesis
  proof (cases "capacity table div 2 \<le> length_t table")
    case False
    then have "length_t table < capacity table div 2"
      by simp
    from set_entry_in_table_inv [OF assms this, of ev key val] val False show ?thesis
      by (auto simp add: hashtable_set_def)
  next
    case True
    from assms show ?thesis
    proof (cases rule: hashtable_expand_cases [of table ev])
      case failed
      with val True assms show ?thesis
        by (simp add: hashtable_set_def)
    next
      case (grown ne)
      let ?grown = "table\<lparr>entries := ne, capacity := capacity table * 2\<rparr>"
      from assms grown(3) have "length_t ?grown < capacity ?grown div 2"
        using half_after_growth [of table] by (simp add: table_inv_def)
      from set_entry_in_table_inv [OF grown(2) this, of ev key val] val True grown(1)
      show ?thesis
        by (auto simp add: hashtable_set_def)
    qed
  qed
qed

lemma reachable_inv: "reachable table \<Longrightarrow> table_inv table"
proof (induction rule: reachable.induct)
  case (created ev table)
  then show ?case
    by (rule hashtable_create_inv)
next
  case (after_set table ev key val table' r)
  with hashtable_set_inv [OF after_set.IH, of ev key val] show ?case
    by auto
qed

lemma reachable_empty: "reachable empty_table"
  using hashtable_create_all_ok by (rule reachable.created)

lemma reachable_table_a: "reachable table_a"
  using reachable_empty set_a_on_empty by (rule reachable.after_set)

lemma table_inv_table_a: "table_inv table_a"
  using reachable_table_a by (rule reachable_inv)

section \<open>Invariants of reachable tables\<close>

text \<open>
  Claim C5. Every table made by \<^verbatim>\<open>hashtable_create\<close> and changed by any calls of
  \<^verbatim>\<open>hashtable_set\<close>, whether they succeed or fail, has a capacity that is a power of two
  and at least 1, and a length of at most half the capacity. Every call of
  \<^verbatim>\<open>hashtable_set\<close> on such a table returns or stops at the assertion.
\<close>

theorem reachable_I1_I2:
  assumes "reachable table"
  shows "(\<exists>n. n < 64 \<and> capacity table = 2 ^ n \<and> unat (capacity table) = 2 ^ n) \<and>
    1 \<le> capacity table \<and>
    hashtable_length table \<le> capacity table div 2 \<and>
    unat (hashtable_length table) \<le> unat (capacity table) div 2 \<and>
    (\<exists>out. hashtable_set ev table key val = Some out)"
proof -
  from assms have inv: "table_inv table"
    by (rule reachable_inv)
  then have I1: "I1 table" and I2: "I2 table"
    by (simp_all add: table_inv_def)
  from I1 obtain n where n: "n < 64" "capacity table = 2 ^ n"
    by (auto simp add: I1_def)
  then have "unat (capacity table) = 2 ^ n"
    by (simp add: unat_pow2)
  with n have "\<exists>n. n < 64 \<and> capacity table = 2 ^ n \<and> unat (capacity table) = 2 ^ n"
    by blast
  moreover from I1_positive [OF I1] have "1 \<le> capacity table"
    by (simp add: word_le_nat_alt)
  moreover from I2 have "hashtable_length table \<le> capacity table div 2"
    by (simp add: I2_def hashtable_length_def)
  moreover from I2 have "unat (hashtable_length table) \<le> unat (capacity table) div 2"
    by (simp add: I2_nat hashtable_length_def)
  moreover from hashtable_set_inv [OF inv, of ev key val]
  have "\<exists>out. hashtable_set ev table key val = Some out"
    by blast
  ultimately show ?thesis
    by blast
qed

theorem reachable_I1_I2_witness:
  "reachable table_a \<and>
   (\<exists>n. n < 64 \<and> capacity table_a = 2 ^ n \<and> unat (capacity table_a) = 2 ^ n) \<and>
   1 \<le> capacity table_a \<and>
   hashtable_length table_a \<le> capacity table_a div 2 \<and>
   unat (hashtable_length table_a) \<le> unat (capacity table_a) div 2 \<and>
   (\<exists>out. hashtable_set all_ok table_a ''b'' 2 = Some out)"
  using reachable_table_a reachable_I1_I2 [OF reachable_table_a, of all_ok "''b''" 2]
  by simp

section \<open>Termination of the probing loops\<close>

text \<open>
  Claim C10. In a table that satisfies the invariants (every reachable table does, lemma
  \<open>reachable_inv\<close>; so some slot is empty), the loops of
  \<^verbatim>\<open>hashtable_get\<close> and \<^verbatim>\<open>hashtable_set_entry\<close>, started at any index below the
  capacity, leave after fewer steps than the capacity, at a slot that is empty or holds
  the key; both functions return.
\<close>

theorem probing_terminates:
  assumes "table_inv table" and "start < capacity table"
  shows "(\<exists>j. j < unat (capacity table) \<and>
      stops_at (entries table) (capacity table) key start j \<and>
      get_loop (entries table) (capacity table) key start =
        Some (get_at (entries table) (probe (capacity table) start j)) \<and>
      set_entry_loop sd_ok (entries table) (capacity table) key val plength start =
        Some (set_at sd_ok (entries table) key val plength (probe (capacity table) start j))) \<and>
    (\<exists>r. hashtable_get table key = Some r) \<and>
    (\<exists>r. hashtable_set_entry sd_ok (entries table) (capacity table) key val plength = Some r)"
proof -
  let ?ents = "entries table"
  let ?cap = "capacity table"
  from empty_slot [OF table_inv_room [OF assms(1)]] obtain i where
    i: "i < ?cap" "e_key (?ents i) = None"
    by blast
  then have free: "\<not> passes ?ents key i"
    by (simp add: passes_def)
  have stop: "\<exists>j. j < unat ?cap \<and> stops_at ?ents ?cap key s j \<and>
      get_loop ?ents ?cap key s = Some (get_at ?ents (probe ?cap s j)) \<and>
      set_entry_loop sd_ok ?ents ?cap key val plength s =
        Some (set_at sd_ok ?ents key val plength (probe ?cap s j))"
    if "s < ?cap" for s
  proof -
    from stop_exists [OF that i(1) free] obtain j where
      j: "j < unat ?cap" "stops_at ?ents ?cap key s j"
      by blast
    with get_loop_stops_at [OF j(2)] set_entry_loop_stops_at [OF j(2), of sd_ok val plength]
    show ?thesis
      by blast
  qed
  from assms(1) have "?cap \<noteq> 0"
    by (simp add: table_inv_def I1_nonzero)
  then have "home ?cap key < ?cap"
    by (rule home_less)
  from stop [OF this] obtain j where
    "get_loop ?ents ?cap key (home ?cap key) = Some (get_at ?ents (probe ?cap (home ?cap key) j))"
    "set_entry_loop sd_ok ?ents ?cap key val plength (home ?cap key) =
       Some (set_at sd_ok ?ents key val plength (probe ?cap (home ?cap key) j))"
    by blast
  then have "hashtable_get table key = Some (get_at ?ents (probe ?cap (home ?cap key) j))"
    and "hashtable_set_entry sd_ok ?ents ?cap key val plength =
       Some (set_at sd_ok ?ents key val plength (probe ?cap (home ?cap key) j))"
    by (simp_all add: hashtable_get_def hashtable_set_entry_def home_def)
  then have "\<exists>r. hashtable_get table key = Some r"
    and "\<exists>r. hashtable_set_entry sd_ok ?ents ?cap key val plength = Some r"
    by blast+
  with stop [OF assms(2)] show ?thesis
    by blast
qed

theorem probing_terminates_witness:
  "table_inv table_a \<and> 0 < capacity table_a \<and>
   (\<exists>j. j < unat (capacity table_a) \<and>
      stops_at (entries table_a) (capacity table_a) ''c'' 0 j \<and>
      get_loop (entries table_a) (capacity table_a) ''c'' 0 =
        Some (get_at (entries table_a) (probe (capacity table_a) 0 j)) \<and>
      set_entry_loop True (entries table_a) (capacity table_a) ''c'' 2 None 0 =
        Some (set_at True (entries table_a) ''c'' 2 None (probe (capacity table_a) 0 j))) \<and>
   (\<exists>r. hashtable_get table_a ''c'' = Some r) \<and>
   (\<exists>r. hashtable_set_entry True (entries table_a) (capacity table_a) ''c'' 2 None = Some r) \<and>
   stops_at (entries table_a) (capacity table_a) ''c'' 0 1"
proof -
  have less: "0 < capacity table_a"
    by (simp add: table_a_def)
  have "stops_at (entries table_a) (capacity table_a) ''c'' 0 1"
    by (simp add: stops_at_alt passes_def probe_def next_index_def table_a_def
        calloc_entries_def zero_entry_def word_le_nat_alt)
  with probing_terminates [OF table_inv_table_a less, of "''c''" True 2 None]
    table_inv_table_a less
  show ?thesis
    by simp
qed

section \<open>Growth keeps the contents\<close>

lemma hashtable_expand_preserves:
  assumes "table_inv table" and "hashtable_expand ev table = Some (True, table')"
  shows "table_inv table'" and "hashtable_get table' k = hashtable_get table k"
    and "length_t table' = length_t table"
    and "unat (capacity table') = 2 * unat (capacity table)"
    and "contents (entries table') (capacity table') = contents (entries table) (capacity table)"
proof -
  from assms(1) have "table_inv table' \<and> hashtable_get table' k = hashtable_get table k \<and>
    length_t table' = length_t table \<and> unat (capacity table') = 2 * unat (capacity table) \<and>
    contents (entries table') (capacity table') = contents (entries table) (capacity table)"
  proof (cases rule: hashtable_expand_cases [of table ev])
    case failed
    with assms(2) show ?thesis
      by simp
  next
    case (grown ne)
    with assms(2) have t': "table' = table\<lparr>entries := ne, capacity := capacity table * 2\<rparr>"
      by simp
    with grown have "contents (entries table') (capacity table') =
        contents (entries table) (capacity table)"
      by simp
    from hashtable_get_same_contents [OF assms(1) _ this, of k] grown t' this show ?thesis
      by simp
  qed
  then show "table_inv table'" and "hashtable_get table' k = hashtable_get table k"
    and "length_t table' = length_t table"
    and "unat (capacity table') = 2 * unat (capacity table)"
    and "contents (entries table') (capacity table') = contents (entries table) (capacity table)"
    by simp_all
qed

lemma grows_preserves:
  assumes "grows table table'" and "table_inv table"
  shows "table_inv table' \<and> (\<forall>k. hashtable_get table' k = hashtable_get table k) \<and>
    length_t table' = length_t table \<and>
    (\<exists>m. unat (capacity table') = 2 ^ m * unat (capacity table))"
  using assms
proof (induction rule: grows.induct)
  case (grows_refl table)
  have "unat (capacity table) = 2 ^ 0 * unat (capacity table)"
    by simp
  with grows_refl show ?case
    by blast
next
  case (grows_step table table' ev table'')
  then have inv: "table_inv table'" and get: "\<forall>k. hashtable_get table' k = hashtable_get table k"
    and len: "length_t table' = length_t table"
    by simp_all
  from grows_step obtain m where m: "unat (capacity table') = 2 ^ m * unat (capacity table)"
    by blast
  from hashtable_expand_preserves(4) [OF inv grows_step.hyps(2)] m
  have "unat (capacity table'') = 2 ^ Suc m * unat (capacity table)"
    by simp
  then have "\<exists>m. unat (capacity table'') = 2 ^ m * unat (capacity table)"
    by blast
  with hashtable_expand_preserves(1-3) [OF inv grows_step.hyps(2)] get len show ?case
    by simp
qed

text \<open>
  Claim C4. A growth that succeeds keeps the contents: after any number of successful
  calls of \<^verbatim>\<open>hashtable_expand\<close> on a table that satisfies the invariants (every
  reachable table does, lemma \<open>reachable_inv\<close>),
  \<^verbatim>\<open>hashtable_get\<close> returns for every key what it returned before, every key stored
  before is found with its value, the length is the same, the capacity is the old one
  times a power of two, and the invariants hold again.
\<close>

theorem growth_preserves_contents:
  assumes "table_inv table" and "grows table table'"
  shows "(\<forall>k. hashtable_get table' k = hashtable_get table k) \<and>
    (\<forall>i k. i < capacity table \<and> e_key (entries table i) = Some k \<longrightarrow>
       hashtable_get table' k = Some (e_value (entries table i))) \<and>
    hashtable_length table' = hashtable_length table \<and>
    (\<exists>m. unat (capacity table') = 2 ^ m * unat (capacity table)) \<and>
    table_inv table'"
  using grows_preserves [OF assms(2,1)] hashtable_get_present [OF assms(1)]
  by (simp add: hashtable_length_def)

lemma expand_table_a: "hashtable_expand all_ok table_a = Some (True, table_a4)"
  by (simp add: hashtable_expand_def all_ok_def table_a_def table_a4_def
      expand_loop.simps calloc_entries_def zero_entry_def
      hashtable_set_entry_def hash_key_a
      set_entry_loop_stop passes_def set_at_def)

lemma expand_table_a4: "hashtable_expand all_ok table_a4 = Some (True, table_a8)"
  by (simp add: hashtable_expand_def all_ok_def table_a4_def table_a8_def
      expand_loop.simps calloc_entries_def zero_entry_def
      hashtable_set_entry_def hash_key_a
      set_entry_loop_stop passes_def set_at_def)

lemma grows_table_a: "grows table_a table_a8"
  using grows.grows_step [OF grows.grows_step [OF grows.grows_refl expand_table_a] expand_table_a4] .

theorem growth_preserves_contents_witness:
  "table_inv table_a \<and> grows table_a table_a8 \<and>
   hashtable_get table_a8 ''a'' = hashtable_get table_a ''a'' \<and>
   (0::size_t) < capacity table_a \<and> e_key (entries table_a 0) = Some ''a'' \<and>
   hashtable_get table_a8 ''a'' = Some (e_value (entries table_a 0)) \<and>
   e_value (entries table_a 0) = 1 \<and>
   hashtable_length table_a8 = hashtable_length table_a \<and>
   (\<exists>m. unat (capacity table_a8) = 2 ^ m * unat (capacity table_a)) \<and>
   table_inv table_a8"
proof -
  have slot: "(0::size_t) < capacity table_a" "e_key (entries table_a 0) = Some ''a''"
    and val: "e_value (entries table_a 0) = 1"
    by (simp_all add: table_a_def)
  note kept = growth_preserves_contents [OF table_inv_table_a grows_table_a]
  from kept have "hashtable_get table_a8 ''a'' = hashtable_get table_a ''a''"
    by blast
  moreover from kept slot have "hashtable_get table_a8 ''a'' = Some (e_value (entries table_a 0))"
    by blast
  moreover from kept have "hashtable_length table_a8 = hashtable_length table_a"
    and "\<exists>m. unat (capacity table_a8) = 2 ^ m * unat (capacity table_a)"
    and "table_inv table_a8"
    by blast+
  ultimately show ?thesis
    using table_inv_table_a grows_table_a slot val by blast
qed

section \<open>Overwriting\<close>

lemma hashtable_set_returned_inv:
  assumes "table_inv table" and "hashtable_set ev table key val = Some (Return (table', r))"
  shows "table_inv table'"
  using hashtable_set_inv [OF assms(1), of ev key val] assms(2) by auto

text \<open>After a successful call the key is in a slot.\<close>

lemma hashtable_set_stored:
  assumes "table_inv table" and "val \<noteq> NULL"
    and "hashtable_set ev table key val = Some (Return (table', Some k))"
  shows "\<exists>i. i < capacity table' \<and> e_key (entries table' i) = Some key"
proof (rule ccontr)
  assume "\<not> (\<exists>i. i < capacity table' \<and> e_key (entries table' i) = Some key)"
  then have "\<forall>i. i < capacity table' \<longrightarrow> e_key (entries table' i) \<noteq> Some key"
    by blast
  with hashtable_set_returned_inv [OF assms(1,3)] have "hashtable_get table' key = Some NULL"
    by (rule hashtable_get_absent)
  with hashtable_set_get [OF assms(2,3)] assms(2) show False
    by simp
qed

text \<open>A call for a key that is in a slot keeps the length.\<close>

lemma hashtable_set_present_length:
  assumes inv: "table_inv table" and slot: "i < capacity table" "e_key (entries table i) = Some key"
    and set: "hashtable_set ev table key val = Some (Return (table', r))"
  shows "length_t table' = length_t table"
proof (cases "val = NULL")
  case True
  with set show ?thesis
    by (auto simp add: hashtable_set_def split: if_splits)
next
  case val: False
  show ?thesis
  proof (cases "capacity table div 2 \<le> length_t table")
    case False
    with val set set_entry_in_table_present(1) [OF inv slot, of ev val] show ?thesis
      by (auto simp add: hashtable_set_def)
  next
    case True
    from inv show ?thesis
    proof (cases rule: hashtable_expand_cases [of table ev])
      case failed
      with val True set show ?thesis
        by (auto simp add: hashtable_set_def)
    next
      case (grown ne)
      let ?grown = "table\<lparr>entries := ne, capacity := capacity table * 2\<rparr>"
      from slot have "(key, e_value (entries table i)) \<in> contents (entries table) (capacity table)"
        by (auto simp add: contents_def)
      with grown(4) have "(key, e_value (entries table i)) \<in> contents ne (capacity table * 2)"
        by simp
      then obtain i' where "i' < capacity ?grown" "e_key (entries ?grown i') = Some key"
        by (auto simp add: contents_def)
      from set_entry_in_table_present(1) [OF grown(2) this, of ev val] val True set grown(1)
      show ?thesis
        by (auto simp add: hashtable_set_def)
    qed
  qed
qed

text \<open>A slot holds the key exactly when the contents pair the key with a value.\<close>

lemma holds_key_contents:
  "(\<exists>i. i < cap \<and> e_key (ents i) = Some key) \<longleftrightarrow> (\<exists>v. (key, v) \<in> contents ents cap)"
  by (auto simp add: contents_def)

text \<open>
  When a call of \<^verbatim>\<open>hashtable_set\<close> needs no growth or its growth succeeds, and
  \<^verbatim>\<open>strdup\<close> succeeds or the key is in a slot, the call returns the key; it keeps the
  length when the key is in a slot.
\<close>

lemma hashtable_set_succeeds:
  assumes inv: "table_inv table" and val: "val \<noteq> NULL"
    and room: "\<not> needs_growth table \<or> can_grow ev table"
    and copy: "strdup_ok ev \<or> (\<exists>i. i < capacity table \<and> e_key (entries table i) = Some key)"
  shows "\<exists>table'. hashtable_set ev table key val = Some (Return (table', Some key)) \<and>
    ((\<exists>i. i < capacity table \<and> e_key (entries table i) = Some key) \<longrightarrow>
       length_t table' = length_t table)"
proof -
  have "\<exists>tb. table_inv tb \<and> length_t tb < capacity tb div 2 \<and> length_t tb = length_t table \<and>
      contents (entries tb) (capacity tb) = contents (entries table) (capacity table) \<and>
      hashtable_set ev table key val = set_entry_in_table ev tb key val"
  proof (cases "needs_growth table")
    case False
    with inv val show ?thesis
      by (intro exI [of _ table]) (simp add: needs_growth_def hashtable_set_def)
  next
    case True
    with room have grow: "calloc_ok ev" "2 * unat (capacity table) < 2 ^ 64"
      by (simp_all add: can_grow_def)
    from inv show ?thesis
    proof (cases rule: hashtable_expand_cases [of table ev])
      case failed
      with grow show ?thesis
        by simp
    next
      case (grown ne)
      let ?grown = "table\<lparr>entries := ne, capacity := capacity table * 2\<rparr>"
      from inv grown(3) have "length_t ?grown < capacity ?grown div 2"
        using half_after_growth [of table] by (simp add: table_inv_def)
      moreover from val True grown(1)
      have "hashtable_set ev table key val = set_entry_in_table ev ?grown key val"
        by (simp add: needs_growth_def hashtable_set_def)
      ultimately show ?thesis
        using grown(2,4) by (intro exI [of _ ?grown]) simp
    qed
  qed
  then obtain tb where tb: "table_inv tb" "length_t tb < capacity tb div 2"
    "length_t tb = length_t table"
    "contents (entries tb) (capacity tb) = contents (entries table) (capacity table)"
    "hashtable_set ev table key val = set_entry_in_table ev tb key val"
    by blast
  from tb(4) have same: "(\<exists>i. i < capacity tb \<and> e_key (entries tb i) = Some key) \<longleftrightarrow>
      (\<exists>i. i < capacity table \<and> e_key (entries table i) = Some key)"
    by (simp only: holds_key_contents)
  show ?thesis
  proof (cases "\<exists>i. i < capacity tb \<and> e_key (entries tb i) = Some key")
    case True
    then obtain i where "i < capacity tb" "e_key (entries tb i) = Some key"
      by blast
    from set_entry_in_table_present(1) [OF tb(1) this, of ev val] tb(3,5) show ?thesis
      by simp
  next
    case False
    with same copy have sd: "strdup_ok ev"
      and absent: "\<forall>i. i < capacity tb \<longrightarrow> e_key (entries tb i) \<noteq> Some key"
      by blast+
    from set_entry_in_table_absent [OF tb(1,2) absent, of ev val] sd tb(5) False same
    show ?thesis
      by auto
  qed
qed

text \<open>When a call needs a growth that fails, it returns the null pointer and the table.\<close>

lemma hashtable_set_growth_fails:
  assumes "val \<noteq> NULL" and "needs_growth table" and "\<not> can_grow ev table"
  shows "hashtable_set ev table key val = Some (Return (table, None))"
proof -
  from assms(3) have "hashtable_expand ev table = Some (False, table)"
    by (auto simp add: can_grow_def hashtable_expand_def Let_def double_wraps_iff)
  with assms(1,2) show ?thesis
    by (simp add: needs_growth_def hashtable_set_def)
qed

text \<open>
  Claim C6, as the code has it. On a table that satisfies the invariants (every reachable
  table does, lemma \<open>reachable_inv\<close>), with non-null values \<open>v1\<close> and \<open>v2\<close>:
  \<^item> the first call of \<^verbatim>\<open>hashtable_set\<close> returns the key when \<^verbatim>\<open>strdup\<close> succeeds and
    the call needs no growth or its growth succeeds;
  \<^item> after a first call that returned the key, the second call with the same key returns
    the key whenever it needs no growth or its growth succeeds, whether or not
    \<^verbatim>\<open>strdup\<close> would succeed; then \<^verbatim>\<open>hashtable_get\<close> returns \<open>v2\<close> and the length is as
    it was after the first call;
  \<^item> when the second call needs a growth that fails, it returns the null pointer, the
    table is as it was, and \<^verbatim>\<open>hashtable_get\<close> still returns \<open>v1\<close>.
\<close>

theorem overwrite:
  assumes "table_inv table" and "v1 \<noteq> NULL" and "v2 \<noteq> NULL"
  shows "((\<not> needs_growth table \<or> can_grow ev1 table) \<and> strdup_ok ev1 \<longrightarrow>
      (\<exists>table1. hashtable_set ev1 table key v1 = Some (Return (table1, Some key)))) \<and>
    (\<forall>table1 k1. hashtable_set ev1 table key v1 = Some (Return (table1, Some k1)) \<longrightarrow>
      (\<not> needs_growth table1 \<or> can_grow ev2 table1 \<longrightarrow>
         (\<exists>table2. hashtable_set ev2 table1 key v2 = Some (Return (table2, Some key)) \<and>
            hashtable_get table2 key = Some v2 \<and>
            hashtable_length table2 = hashtable_length table1)) \<and>
      (needs_growth table1 \<and> \<not> can_grow ev2 table1 \<longrightarrow>
         hashtable_set ev2 table1 key v2 = Some (Return (table1, None)) \<and>
         hashtable_get table1 key = Some v1))"
proof (intro conjI allI impI)
  assume "(\<not> needs_growth table \<or> can_grow ev1 table) \<and> strdup_ok ev1"
  with hashtable_set_succeeds [OF assms(1,2), of ev1 key]
  show "\<exists>table1. hashtable_set ev1 table key v1 = Some (Return (table1, Some key))"
    by blast
next
  fix table1 k1
  assume first: "hashtable_set ev1 table key v1 = Some (Return (table1, Some k1))"
  assume room: "\<not> needs_growth table1 \<or> can_grow ev2 table1"
  from assms(1) first have inv1: "table_inv table1"
    by (rule hashtable_set_returned_inv)
  from hashtable_set_stored [OF assms(1,2) first]
  have slot: "\<exists>i. i < capacity table1 \<and> e_key (entries table1 i) = Some key" .
  with hashtable_set_succeeds [OF inv1 assms(3) room, of key]
  obtain table2 where second: "hashtable_set ev2 table1 key v2 = Some (Return (table2, Some key))"
    and len: "length_t table2 = length_t table1"
    by blast
  from hashtable_set_get [OF assms(3) second] have "hashtable_get table2 key = Some v2" .
  with second len
  show "\<exists>table2. hashtable_set ev2 table1 key v2 = Some (Return (table2, Some key)) \<and>
      hashtable_get table2 key = Some v2 \<and> hashtable_length table2 = hashtable_length table1"
    by (simp add: hashtable_length_def)
next
  fix table1 k1
  assume first: "hashtable_set ev1 table key v1 = Some (Return (table1, Some k1))"
  assume "needs_growth table1 \<and> \<not> can_grow ev2 table1"
  then show "hashtable_set ev2 table1 key v2 = Some (Return (table1, None))"
    using assms(3) by (simp add: hashtable_set_growth_fails)
next
  fix table1 k1
  assume first: "hashtable_set ev1 table key v1 = Some (Return (table1, Some k1))"
  from assms(2) this show "hashtable_get table1 key = Some v1"
    by (rule hashtable_set_get)
qed

lemma set_a_on_table_a: "hashtable_set all_ok table_a ''a'' 2 = Some (Return (table_a4_2, Some ''a''))"
proof -
  have "set_entry_in_table all_ok table_a4 ''a'' 2 = Some (Return (table_a4_2, Some ''a''))"
    by (simp add: set_entry_in_table_def table_a4_def table_a4_2_def all_ok_def
        hashtable_set_entry_def hash_key_a set_entry_loop_stop passes_def set_at_def)
  with expand_table_a show ?thesis
    by (simp add: hashtable_set_def NULL_def table_a_def)
qed

text \<open>
  The growth test of \<^verbatim>\<open>hashtable_set\<close> comes before the search for the key: a call
  for a key that the table holds asks for memory when the table is half full, and
  fails when \<^verbatim>\<open>calloc\<close> fails.
\<close>

lemma set_existing_key_no_calloc:
  "hashtable_set no_calloc table_a ''a'' 2 = Some (Return (table_a, None))"
  by (simp add: hashtable_set_def no_calloc_def table_a_def NULL_def hashtable_expand_def)

lemma get_a_table_a: "hashtable_get table_a ''a'' = Some 1"
proof -
  have "(1::ptr) \<noteq> NULL"
    by (simp add: NULL_def)
  then show ?thesis
    using set_a_on_empty by (rule hashtable_set_get)
qed

theorem overwrite_witness:
  "table_inv empty_table \<and> (1::ptr) \<noteq> NULL \<and> (2::ptr) \<noteq> NULL \<and>
   can_grow all_ok empty_table \<and> strdup_ok all_ok \<and>
   hashtable_set all_ok empty_table ''a'' 1 = Some (Return (table_a, Some ''a'')) \<and>
   needs_growth table_a \<and> can_grow all_ok table_a \<and>
   hashtable_set all_ok table_a ''a'' 2 = Some (Return (table_a4_2, Some ''a'')) \<and>
   hashtable_get table_a4_2 ''a'' = Some 2 \<and>
   hashtable_length table_a4_2 = hashtable_length table_a \<and>
   \<not> can_grow no_calloc table_a \<and>
   hashtable_set no_calloc table_a ''a'' 2 = Some (Return (table_a, None)) \<and>
   hashtable_get table_a ''a'' = Some 1"
proof -
  have v: "(1::ptr) \<noteq> NULL" "(2::ptr) \<noteq> NULL"
    by (simp_all add: NULL_def)
  have env: "can_grow all_ok empty_table" "strdup_ok all_ok" "needs_growth table_a"
    "can_grow all_ok table_a" "\<not> can_grow no_calloc table_a"
    by (simp_all add: can_grow_def needs_growth_def all_ok_def no_calloc_def empty_table_def
        table_a_def INITIAL_CAPACITY_def)
  note ok = overwrite [OF table_inv_empty v, of all_ok "''a''" all_ok]
  note fails = overwrite [OF table_inv_empty v, of all_ok "''a''" no_calloc]
  from ok env have "\<exists>table1. hashtable_set all_ok empty_table ''a'' 1 = Some (Return (table1, Some ''a''))"
    by blast
  from ok set_a_on_empty env(4) obtain table2 where
    "hashtable_set all_ok table_a ''a'' 2 = Some (Return (table2, Some ''a''))"
    "hashtable_get table2 ''a'' = Some 2" "hashtable_length table2 = hashtable_length table_a"
    by blast
  with set_a_on_table_a have "hashtable_get table_a4_2 ''a'' = Some 2"
    and "hashtable_length table_a4_2 = hashtable_length table_a"
    by simp_all
  moreover from fails set_a_on_empty env(3,5)
  have "hashtable_set no_calloc table_a ''a'' 2 = Some (Return (table_a, None))"
    and "hashtable_get table_a ''a'' = Some 1"
    by blast+
  ultimately show ?thesis
    using table_inv_empty v env set_a_on_empty set_a_on_table_a by blast
qed

text \<open>
  The claim as the specification states it fails: after a first call that stored the
  key \<open>a\<close> with value 1, a second call with value 2 whose \<^verbatim>\<open>calloc\<close> fails returns the
  null pointer, and \<^verbatim>\<open>hashtable_get\<close> returns 1, not 2.
\<close>

theorem overwrite_counterexample:
  "(1::ptr) \<noteq> NULL \<and> (2::ptr) \<noteq> NULL \<and> reachable empty_table \<and>
   hashtable_set all_ok empty_table ''a'' 1 = Some (Return (table_a, Some ''a'')) \<and>
   hashtable_set no_calloc table_a ''a'' 2 = Some (Return (table_a, None)) \<and>
   hashtable_get table_a ''a'' = Some 1 \<and> hashtable_get table_a ''a'' \<noteq> Some 2"
  using reachable_empty set_a_on_empty set_existing_key_no_calloc get_a_table_a
  by (simp add: NULL_def)

section \<open>Failed insertions\<close>






section \<open>Iteration\<close>

lemma hashtable_next_end:
  "\<not> it_index it < capacity (it_table it) \<Longrightarrow> hashtable_next it = (False, it)"
  by (simp add: hashtable_next.simps [of it])

lemma hashtable_next_occupied:
  "it_index it < capacity (it_table it) \<Longrightarrow> e_key (entries (it_table it) (it_index it)) = Some k \<Longrightarrow>
     hashtable_next it =
       (True, it\<lparr>it_index := it_index it + 1,
                 it_key := e_key (entries (it_table it) (it_index it)),
                 it_value := e_value (entries (it_table it) (it_index it))\<rparr>)"
  by (simp add: hashtable_next.simps [of it])

lemma hashtable_next_empty:
  "it_index it < capacity (it_table it) \<Longrightarrow> e_key (entries (it_table it) (it_index it)) = None \<Longrightarrow>
     hashtable_next it = hashtable_next (it\<lparr>it_index := it_index it + 1\<rparr>)"
  by (simp add: hashtable_next.simps [of it])

lemma hashtable_next_done:
  "hashtable_next it = (False, it') \<Longrightarrow>
     it_table it' = it_table it \<and> \<not> it_index it' < capacity (it_table it')"
proof (induction it rule: hashtable_next.induct)
  case (1 it)
  show ?case
  proof (cases "it_index it < capacity (it_table it)")
    case False
    with "1.prems" show ?thesis
      by (simp add: hashtable_next_end)
  next
    case less: True
    show ?thesis
    proof (cases "e_key (entries (it_table it) (it_index it))")
      case None
      with less "1.prems" have "hashtable_next (it\<lparr>it_index := it_index it + 1\<rparr>) = (False, it')"
        by (simp add: hashtable_next_empty)
      with "1.IH" [OF less None] show ?thesis
        by auto
    next
      case (Some k)
      with less "1.prems" show ?thesis
        by (simp add: hashtable_next_occupied)
    qed
  qed
qed

lemma items_from_end: "unat (capacity table) \<le> n \<Longrightarrow> items_from table n = []"
  by (simp add: items_from_def)

lemma items_from_step:
  assumes "i < capacity table"
  shows "items_from table (unat i) =
    (if e_key (entries table i) = None then items_from table (unat (i + 1))
     else (e_key (entries table i), e_value (entries table i)) # items_from table (unat (i + 1)))"
proof -
  from assms have "unat i < unat (capacity table)"
    by (simp add: word_less_nat_alt)
  then have "[unat i..<unat (capacity table)] = unat i # [Suc (unat i)..<unat (capacity table)]"
    by (rule upt_conv_Cons)
  then show ?thesis
    by (simp add: items_from_def unat_inc [OF assms])
qed

lemma iterate_items:
  "iterate it = items_from (it_table it) (unat (it_index it))"
proof (induction "unat (capacity (it_table it)) - unat (it_index it)" arbitrary: it)
  case 0
  then have "\<not> it_index it < capacity (it_table it)"
    by (simp add: word_less_nat_alt)
  with 0 show ?case
    by (simp add: iterate.simps [of it] hashtable_next_end items_from_end)
next
  case (Suc n)
  then have less: "it_index it < capacity (it_table it)"
    by (simp add: word_less_nat_alt)
  then have inc: "unat (it_index it + 1) = Suc (unat (it_index it))"
    by (rule unat_inc)
  show ?case
  proof (cases "e_key (entries (it_table it) (it_index it))")
    case None
    let ?it = "it\<lparr>it_index := it_index it + 1\<rparr>"
    from Suc.hyps(2) inc have "n = unat (capacity (it_table ?it)) - unat (it_index ?it)"
      by simp
    then have "iterate ?it = items_from (it_table ?it) (unat (it_index ?it))"
      by (rule Suc.hyps(1))
    moreover from less None have "iterate it = iterate ?it"
      by (simp add: iterate.simps [of it] iterate.simps [of ?it] hashtable_next_empty)
    ultimately show ?thesis
      using None by (simp add: items_from_step [OF less])
  next
    case (Some k)
    let ?it = "it\<lparr>it_index := it_index it + 1,
      it_key := e_key (entries (it_table it) (it_index it)),
      it_value := e_value (entries (it_table it) (it_index it))\<rparr>"
    from Suc.hyps(2) inc have "n = unat (capacity (it_table ?it)) - unat (it_index ?it)"
      by simp
    then have "iterate ?it = items_from (it_table ?it) (unat (it_index ?it))"
      by (rule Suc.hyps(1))
    moreover from less Some have "iterate it =
        (e_key (entries (it_table it) (it_index it)), e_value (entries (it_table it) (it_index it)))
          # iterate ?it"
      by (simp add: iterate.simps [of it] hashtable_next_occupied)
    ultimately show ?thesis
      using Some by (simp add: items_from_step [OF less])
  qed
qed

text \<open>
  Claim C7. The caller's loop over a fresh iterator sees the occupied slots of the table,
  each once, in the order of their indices, and no empty slot; and after a call of
  \<^verbatim>\<open>hashtable_next\<close> has answered \<^verbatim>\<open>false\<close>, the next call answers \<^verbatim>\<open>false\<close> and
  leaves the iterator as it was.
\<close>

theorem iteration_complete:
  "iterate (hashtable_iterator it0 table) =
     map (\<lambda>i. (e_key (entries table i), e_value (entries table i)))
       (filter (\<lambda>i. e_key (entries table i) \<noteq> None)
          (map of_nat [0..<unat (capacity table)])) \<and>
   (hashtable_next it = (False, it') \<longrightarrow> hashtable_next it' = (False, it'))"
proof -
  have "iterate (hashtable_iterator it0 table) = items_from table 0"
    by (simp add: iterate_items hashtable_iterator_def)
  moreover have "hashtable_next it' = (False, it')" if "hashtable_next it = (False, it')"
  proof -
    from hashtable_next_done [OF that] have "\<not> it_index it' < capacity (it_table it')"
      by blast
    then show ?thesis
      by (rule hashtable_next_end)
  qed
  ultimately show ?thesis
    by (simp add: items_from_def)
qed

lemma next_on_empty:
  "hashtable_next (hashtable_iterator some_iterator empty_table) =
     (False, some_iterator\<lparr>it_table := empty_table, it_index := 1\<rparr>)"
  by (simp add: hashtable_iterator_def hashtable_next.simps empty_table_def
      INITIAL_CAPACITY_def calloc_entries_def zero_entry_def)

theorem iteration_complete_witness:
  "iterate (hashtable_iterator some_iterator table_a8) = [(Some ''a'', 1)] \<and>
   hashtable_next (hashtable_iterator some_iterator empty_table) =
     (False, some_iterator\<lparr>it_table := empty_table, it_index := 1\<rparr>) \<and>
   hashtable_next (some_iterator\<lparr>it_table := empty_table, it_index := 1\<rparr>) =
     (False, some_iterator\<lparr>it_table := empty_table, it_index := 1\<rparr>)"
proof -
  have "map (\<lambda>i. (e_key (entries table_a8 i), e_value (entries table_a8 i)))
       (filter (\<lambda>i. e_key (entries table_a8 i) \<noteq> None)
          (map of_nat [0..<unat (capacity table_a8)])) = [(Some ''a'', 1)]"
    by (simp add: table_a8_def calloc_entries_def zero_entry_def upt_conv_Cons)
  with iteration_complete [of some_iterator table_a8
      "hashtable_iterator some_iterator empty_table"
      "some_iterator\<lparr>it_table := empty_table, it_index := 1\<rparr>"]
    next_on_empty
  show ?thesis
    by simp
qed

end
